theory Spec2Isabelle
  imports Main "HOL-Library.Word"
begin

unbundle bit_operations_syntax

section \<open>Memory, accesses and configuration\<close>

text \<open>
  The two routines of \<^verbatim>\<open>arch/riscv/lib/string.c\<close> work on raw memory. Memory is a
  function from byte addresses to bytes. Addresses and the \<^verbatim>\<open>size_t\<close> count are natural
  numbers: pointer arithmetic that leaves the address space is undefined in C, so the
  model covers every call whose regions lie inside the address space, and no
  wrap-around is ever taken. Every load and store is also recorded, in program order,
  in a trace, so that statements about which addresses are read or written, and with
  which width, can be made about the code itself.
\<close>

type_synonym addr = nat
type_synonym u8 = "8 word"

datatype access = LoadB addr | StoreB addr | LoadW addr | StoreW addr

record machine =
  mem :: "addr \<Rightarrow> u8"
  trace :: "access list"

text \<open>
  The file does not define \<^verbatim>\<open>BITS_PER_LONG\<close>, \<^verbatim>\<open>sizeof(long)\<close> or
  \<^verbatim>\<open>CONFIG_HAVE_EFFICIENT_UNALIGNED_ACCESS\<close>: they come from the build configuration
  and are parameters here. A \<^verbatim>\<open>long\<close> has 32 or 64 bits.
\<close>

datatype long_width = L32 | L64

record config =
  width :: long_width
  HAVE_EFFICIENT_UNALIGNED_ACCESS :: bool

definition BITS_PER_LONG :: "config \<Rightarrow> nat" where
  "BITS_PER_LONG c = (case width c of L32 \<Rightarrow> 32 | L64 \<Rightarrow> 64)"

definition MIN_THRESHOLD :: "config \<Rightarrow> nat" where
  "MIN_THRESHOLD c = BITS_PER_LONG c div 8 * 2"

definition bytes_long :: "config \<Rightarrow> nat" where
  "bytes_long c = BITS_PER_LONG c div 8"

definition mask_long :: "config \<Rightarrow> nat" where
  "mask_long c = bytes_long c - 1"

subsection \<open>Byte and word accesses\<close>

definition load_u8 :: "machine \<Rightarrow> addr \<Rightarrow> u8 \<times> machine" where
  "load_u8 st a = (mem st a, st\<lparr>trace := trace st @ [LoadB a]\<rparr>)"

definition store_u8 :: "machine \<Rightarrow> addr \<Rightarrow> u8 \<Rightarrow> machine" where
  "store_u8 st a b = st\<lparr>mem := (mem st)(a := b), trace := trace st @ [StoreB a]\<rparr>"

text \<open>
  An \<^verbatim>\<open>unsigned long\<close> is a natural number below \<open>2 ^ BITS_PER_LONG\<close>. The machine is
  little-endian (the source says so at the shifted copy): the byte at the lowest
  address is the least significant one.
\<close>

fun le_word :: "(addr \<Rightarrow> u8) \<Rightarrow> addr \<Rightarrow> nat \<Rightarrow> nat" where
  "le_word m a 0 = 0"
| "le_word m a (Suc n) = unat (m a) OR push_bit 8 (le_word m (Suc a) n)"

definition byte_of :: "nat \<Rightarrow> nat \<Rightarrow> u8" where
  "byte_of w i = of_nat (drop_bit (8 * i) w)"

definition load_ulong :: "config \<Rightarrow> machine \<Rightarrow> addr \<Rightarrow> nat \<times> machine" where
  "load_ulong c st a =
     (le_word (mem st) a (bytes_long c), st\<lparr>trace := trace st @ [LoadW a]\<rparr>)"

definition store_ulong :: "config \<Rightarrow> machine \<Rightarrow> addr \<Rightarrow> nat \<Rightarrow> machine" where
  "store_ulong c st a w =
     st\<lparr>mem := (\<lambda>x. if a \<le> x \<and> x < a + bytes_long c then byte_of w (x - a) else mem st x),
        trace := trace st @ [StoreW a]\<rparr>"

text \<open>\<^verbatim>\<open>*d.as_u8++ = *s.as_u8++\<close> and \<^verbatim>\<open>*d.as_ulong++ = *s.as_ulong++\<close>, without the
  pointer increments.\<close>

definition copy_byte :: "machine \<Rightarrow> addr \<Rightarrow> addr \<Rightarrow> machine" where
  "copy_byte st d s = (case load_u8 st s of (b, st1) \<Rightarrow> store_u8 st1 d b)"

definition copy_word :: "config \<Rightarrow> machine \<Rightarrow> addr \<Rightarrow> addr \<Rightarrow> machine" where
  "copy_word c st d s = (case load_ulong c st s of (w, st1) \<Rightarrow> store_ulong c st1 d w)"

section \<open>\<^verbatim>\<open>__memcpy\<close>\<close>

text \<open>
  Lines 42-43: copy a byte at a time until the destination is aligned. The loop runs
  fewer than \<open>bytes_long\<close> times and is entered with a count of at least two words, so
  \<^verbatim>\<open>count--\<close> never wraps there (lemmas \<open>align_loop_eq\<close> and \<open>align_bytes_less\<close> below).
\<close>

function align_loop ::
  "config \<Rightarrow> machine \<Rightarrow> addr \<Rightarrow> addr \<Rightarrow> nat \<Rightarrow> machine \<times> addr \<times> addr \<times> nat" where
  "align_loop c st d s count =
     (if d AND mask_long c \<noteq> 0
      then align_loop c (copy_byte st d s) (d + 1) (s + 1) (count - 1)
      else (st, d, s, count))"
  by pat_completeness auto
termination
proof (relation "measure (\<lambda>(c, st, d, s, count). (bytes_long c - d mod bytes_long c) mod bytes_long c)")
  show "wf (measure (\<lambda>(c, st, d, s, count). (bytes_long c - d mod bytes_long c) mod bytes_long c))"
    by simp
next
  fix c :: config and st :: machine and d s count :: nat
  assume run: "d AND mask_long c \<noteq> 0"
  have low: "d AND mask_long c = d mod bytes_long c"
  proof (cases "width c")
    case L32
    have "d AND 3 = take_bit 2 d"
      by (simp add: take_bit_eq_mask mask_eq_exp_minus_1)
    then show ?thesis
      using L32 by (simp add: mask_long_def bytes_long_def BITS_PER_LONG_def take_bit_eq_mod)
  next
    case L64
    have "d AND 7 = take_bit 3 d"
      by (simp add: take_bit_eq_mask mask_eq_exp_minus_1)
    then show ?thesis
      using L64 by (simp add: mask_long_def bytes_long_def BITS_PER_LONG_def take_bit_eq_mod)
  qed
  have pos: "0 < bytes_long c"
    by (cases "width c") (simp_all add: bytes_long_def BITS_PER_LONG_def)
  have nz: "d mod bytes_long c \<noteq> 0"
    using run low by simp
  have lt: "d mod bytes_long c < bytes_long c"
    using pos by simp
  have step: "(d + 1) mod bytes_long c =
      (if Suc (d mod bytes_long c) = bytes_long c then 0 else Suc (d mod bytes_long c))"
    by (simp add: mod_Suc)
  have "(bytes_long c - (d + 1) mod bytes_long c) mod bytes_long c
      < (bytes_long c - d mod bytes_long c) mod bytes_long c"
  proof (cases "Suc (d mod bytes_long c) = bytes_long c")
    case True
    then show ?thesis
      using nz lt step by simp
  next
    case False
    then show ?thesis
      using nz lt step by simp
  qed
  then show "((c, copy_byte st d s, d + 1, s + 1, count - 1), (c, st, d, s, count))
      \<in> measure (\<lambda>(c, st, d, s, count). (bytes_long c - d mod bytes_long c) mod bytes_long c)"
    by simp
qed

text \<open>
  Lines 68-69: the word stored by the shifted copy. The left shift is taken in an
  \<^verbatim>\<open>unsigned long\<close>, so the bits shifted beyond \<open>BITS_PER_LONG\<close> are lost.
\<close>

definition shift_merge :: "config \<Rightarrow> nat \<Rightarrow> nat \<Rightarrow> nat \<Rightarrow> nat" where
  "shift_merge c lastw nextw distance =
     drop_bit (distance * 8) lastw
       OR take_bit (BITS_PER_LONG c) (push_bit ((bytes_long c - distance) * 8) nextw)"

text \<open>Lines 64-73; \<open>s\<close> is the source pointer after it was moved back to a word boundary.\<close>

function shift_loop ::
  "config \<Rightarrow> machine \<Rightarrow> addr \<Rightarrow> addr \<Rightarrow> nat \<Rightarrow> nat \<Rightarrow> nat \<Rightarrow> machine \<times> addr \<times> addr \<times> nat" where
  "shift_loop c st d s count nextw distance =
     (if count \<ge> bytes_long c + mask_long c
      then (let lastw = nextw
            in case load_ulong c st (s + bytes_long c) of (next1, st1) \<Rightarrow>
                 shift_loop c (store_ulong c st1 d (shift_merge c lastw next1 distance))
                   (d + bytes_long c) (s + bytes_long c) (count - bytes_long c) next1 distance)
      else (st, d, s, count))"
  by pat_completeness auto
termination
proof (relation "measure (\<lambda>(c, st, d, s, count, nextw, distance). count)")
  show "wf (measure (\<lambda>(c, st, d, s, count, nextw, distance). count))"
    by simp
next
  fix c :: config and st st1 :: machine and d s count nextw distance lastw next1 :: nat
  assume "bytes_long c + mask_long c \<le> count"
  moreover have "0 < bytes_long c"
    by (cases "width c") (simp_all add: bytes_long_def BITS_PER_LONG_def)
  ultimately have "count - bytes_long c < count"
    by arith
  then show "((c, store_ulong c st1 d (shift_merge c lastw next1 distance), d + bytes_long c,
      s + bytes_long c, count - bytes_long c, next1, distance), (c, st, d, s, count, nextw, distance))
      \<in> measure (\<lambda>(c, st, d, s, count, nextw, distance). count)"
    by simp
qed

text \<open>Lines 57-76: the whole branch taken when \<open>distance\<close> is not zero.\<close>

definition shifted_copy ::
  "config \<Rightarrow> machine \<Rightarrow> addr \<Rightarrow> addr \<Rightarrow> nat \<Rightarrow> nat \<Rightarrow> machine \<times> addr \<times> addr \<times> nat" where
  "shifted_copy c st d s count distance =
     (case load_ulong c st (s - distance) of (nextw, st1) \<Rightarrow>
        case shift_loop c st1 d (s - distance) count nextw distance of
          (st2, d2, s2, count2) \<Rightarrow> (st2, d2, s2 + distance, count2))"

text \<open>Lines 82-83: the plain word copy.\<close>

function word_loop ::
  "config \<Rightarrow> machine \<Rightarrow> addr \<Rightarrow> addr \<Rightarrow> nat \<Rightarrow> machine \<times> addr \<times> addr \<times> nat" where
  "word_loop c st d s count =
     (if count \<ge> bytes_long c
      then word_loop c (copy_word c st d s) (d + bytes_long c) (s + bytes_long c)
             (count - bytes_long c)
      else (st, d, s, count))"
  by pat_completeness auto
termination
proof (relation "measure (\<lambda>(c, st, d, s, count). count)")
  show "wf (measure (\<lambda>(c, st, d, s, count). count))"
    by simp
next
  fix c :: config and st :: machine and d s count :: nat
  assume "bytes_long c \<le> count"
  moreover have "0 < bytes_long c"
    by (cases "width c") (simp_all add: bytes_long_def BITS_PER_LONG_def)
  ultimately have "count - bytes_long c < count"
    by arith
  then show "((c, copy_word c st d s, d + bytes_long c, s + bytes_long c, count - bytes_long c),
      (c, st, d, s, count)) \<in> measure (\<lambda>(c, st, d, s, count). count)"
    by simp
qed

text \<open>Lines 87-88: \<^verbatim>\<open>while (count--) *d.as_u8++ = *s.as_u8++;\<close> The value the last
  decrement leaves in \<open>count\<close> is never used.\<close>

fun copy_remainder :: "machine \<Rightarrow> addr \<Rightarrow> addr \<Rightarrow> nat \<Rightarrow> machine" where
  "copy_remainder st d s 0 = st"
| "copy_remainder st d s (Suc count) = copy_remainder (copy_byte st d s) (Suc d) (Suc s) count"

text \<open>Lines 40-46: the alignment fixup; the last component is \<open>distance\<close>.\<close>

definition align_phase ::
  "config \<Rightarrow> machine \<Rightarrow> addr \<Rightarrow> addr \<Rightarrow> nat \<Rightarrow> machine \<times> addr \<times> addr \<times> nat \<times> nat" where
  "align_phase c st dest src count =
     (if \<not> HAVE_EFFICIENT_UNALIGNED_ACCESS c
      then (case align_loop c st dest src count of
              (st1, d, s, count1) \<Rightarrow> (st1, d, s, count1, s AND mask_long c))
      else (st, dest, src, count, 0))"

text \<open>Lines 40-84: everything between the threshold test and the label
  \<^verbatim>\<open>copy_remainder\<close>. The result is the state with which the remainder loop starts.\<close>

definition word_phase ::
  "config \<Rightarrow> machine \<Rightarrow> addr \<Rightarrow> addr \<Rightarrow> nat \<Rightarrow> machine \<times> addr \<times> addr \<times> nat" where
  "word_phase c st dest src count =
     (case align_phase c st dest src count of
        (st1, d, s, count1, distance) \<Rightarrow>
          if distance \<noteq> 0 then shifted_copy c st1 d s count1 distance
          else word_loop c st1 d s count1)"

text \<open>
  \<^verbatim>\<open>__memcpy\<close>, under the name of its alias \<^verbatim>\<open>memcpy\<close>. The function returns
  \<open>dest\<close>; the result is the final machine and that address.
\<close>

definition memcpy :: "config \<Rightarrow> machine \<Rightarrow> addr \<Rightarrow> addr \<Rightarrow> nat \<Rightarrow> machine \<times> addr" where
  "memcpy c st dest src count =
     (if count < MIN_THRESHOLD c then (copy_remainder st dest src count, dest)
      else case word_phase c st dest src count of
             (st2, d, s, count2) \<Rightarrow> (copy_remainder st2 d s count2, dest))"

section \<open>\<^verbatim>\<open>__memmove\<close>\<close>

text \<open>Lines 110-111: \<^verbatim>\<open>while (count--) *--tmp = *--s;\<close>\<close>

fun backward_loop :: "machine \<Rightarrow> addr \<Rightarrow> addr \<Rightarrow> nat \<Rightarrow> machine" where
  "backward_loop st tmp s 0 = st"
| "backward_loop st tmp s (Suc count) =
     backward_loop (copy_byte st (tmp - 1) (s - 1)) (tmp - 1) (s - 1) count"

text \<open>\<^verbatim>\<open>__memmove\<close>, under the name of its alias. The \<^verbatim>\<open>memcpy\<close> it calls is the
  weak alias of \<^verbatim>\<open>__memcpy\<close>. When neither test holds (\<open>dest = src\<close> with a positive
  count) the function returns without touching memory.\<close>

definition memmove :: "config \<Rightarrow> machine \<Rightarrow> addr \<Rightarrow> addr \<Rightarrow> nat \<Rightarrow> machine \<times> addr" where
  "memmove c st dest src count =
     (if dest < src \<or> src + count \<le> dest then memcpy c st dest src count
      else if dest > src then (backward_loop st (dest + count) (src + count) count, dest)
      else (st, dest))"

section \<open>Reference copies, in the words of the specification\<close>

text \<open>A pure byte-by-byte ascending copy of \<open>count\<close> bytes.\<close>

definition bytewise_copy :: "machine \<Rightarrow> addr \<Rightarrow> addr \<Rightarrow> nat \<Rightarrow> machine" where
  "bytewise_copy st dest src count =
     foldl (\<lambda>st i. copy_byte st (dest + i) (src + i)) st [0..<count]"

text \<open>A byte-by-byte copy from the last byte of each region backward to the first.\<close>

definition bytewise_copy_backward :: "machine \<Rightarrow> addr \<Rightarrow> addr \<Rightarrow> nat \<Rightarrow> machine" where
  "bytewise_copy_backward st dest src count =
     foldl (\<lambda>st i. copy_byte st (dest + i) (src + i)) st (rev [0..<count])"

text \<open>The overlap mover as the specification describes it: delegate to the word copier
  when an ascending copy is safe, otherwise copy backward.\<close>

definition move_spec :: "config \<Rightarrow> machine \<Rightarrow> addr \<Rightarrow> addr \<Rightarrow> nat \<Rightarrow> machine \<times> addr" where
  "move_spec c st dest src count =
     (if dest < src \<or> src + count \<le> dest then memcpy c st dest src count
      else (bytewise_copy_backward st dest src count, dest))"

text \<open>Reading a region in full, and writing a list of bytes to a region: the
  reference for "the source is read before any destination byte is written".\<close>

definition read_all :: "(addr \<Rightarrow> u8) \<Rightarrow> addr \<Rightarrow> nat \<Rightarrow> u8 list" where
  "read_all m a n = map (\<lambda>i. m (a + i)) [0..<n]"

fun write_all :: "(addr \<Rightarrow> u8) \<Rightarrow> addr \<Rightarrow> u8 list \<Rightarrow> addr \<Rightarrow> u8" where
  "write_all m a [] = m"
| "write_all m a (b # bs) = write_all (m(a := b)) (Suc a) bs"

text \<open>
  Memory after the bytes at the indices \<open>js\<close> have been copied from \<open>src\<close> to \<open>dest\<close>
  one at a time, in the order of the list, each byte read from the memory as the bytes
  before it have left it. With \<open>[0..<count]\<close> this is the ascending byte-by-byte copy,
  with \<open>rev [0..<count]\<close> the copy from the last byte backward to the first.
\<close>

definition put_bytes :: "(addr \<Rightarrow> u8) \<Rightarrow> addr \<Rightarrow> addr \<Rightarrow> nat list \<Rightarrow> addr \<Rightarrow> u8" where
  "put_bytes m dest src js = foldl (\<lambda>m i. m(dest + i := m (src + i))) m js"

text \<open>
  Memory after the words at the indices \<open>js\<close> have been copied one at a time, in the
  order of the list: the \<open>bytes_long\<close> bytes of a word are all read, then all written.
\<close>

definition put_words :: "config \<Rightarrow> (addr \<Rightarrow> u8) \<Rightarrow> addr \<Rightarrow> addr \<Rightarrow> nat list \<Rightarrow> addr \<Rightarrow> u8" where
  "put_words c m dest src js =
     foldl (\<lambda>m j. write_all m (dest + bytes_long c * j)
                    (read_all m (src + bytes_long c * j) (bytes_long c))) m js"

text \<open>The bytes an access reads and the bytes it writes.\<close>

fun reads :: "config \<Rightarrow> access \<Rightarrow> addr \<Rightarrow> bool" where
  "reads c (LoadB x) a = (a = x)"
| "reads c (LoadW x) a = (x \<le> a \<and> a < x + bytes_long c)"
| "reads c (StoreB x) a = False"
| "reads c (StoreW x) a = False"

fun writes :: "config \<Rightarrow> access \<Rightarrow> addr \<Rightarrow> bool" where
  "writes c (StoreB x) a = (a = x)"
| "writes c (StoreW x) a = (x \<le> a \<and> a < x + bytes_long c)"
| "writes c (LoadB x) a = False"
| "writes c (LoadW x) a = False"

section \<open>Auxiliary notions for the proofs\<close>

text \<open>Memory after the \<open>k\<close> bytes at \<open>s\<close> have been put at \<open>d\<close>, all at once.\<close>

definition blit :: "(addr \<Rightarrow> u8) \<Rightarrow> addr \<Rightarrow> addr \<Rightarrow> nat \<Rightarrow> addr \<Rightarrow> u8" where
  "blit m d s k = (\<lambda>a. if d \<le> a \<and> a < d + k then m (s + (a - d)) else m a)"

text \<open>An access stays inside the regions of a copy of \<open>n\<close> bytes from \<open>s\<close> to \<open>d\<close>: byte
  accesses inside the region of their kind, word stores wholly inside the destination,
  and word loads ending at or before the end of the source.\<close>

fun in_bounds :: "config \<Rightarrow> addr \<Rightarrow> addr \<Rightarrow> nat \<Rightarrow> access \<Rightarrow> bool" where
  "in_bounds c d s n (LoadB a) = (s \<le> a \<and> a < s + n)"
| "in_bounds c d s n (StoreB a) = (d \<le> a \<and> a < d + n)"
| "in_bounds c d s n (LoadW a) = (a + bytes_long c \<le> s + n)"
| "in_bounds c d s n (StoreW a) = (d \<le> a \<and> a + bytes_long c \<le> d + n)"

text \<open>The number of words the loop of the shifted copy writes when it starts with
  \<open>count\<close> bytes to go.\<close>

definition shift_words :: "config \<Rightarrow> nat \<Rightarrow> nat" where
  "shift_words c count = (count + 1) div bytes_long c - 1"

text \<open>The accesses made between two machine states.\<close>

definition accesses :: "machine \<Rightarrow> machine \<Rightarrow> access list" where
  "accesses st st1 = drop (length (trace st)) (trace st1)"

text \<open>A run from \<open>st\<close> to \<open>st1\<close> only adds accesses, all of them inside the regions.\<close>

definition stays_in :: "config \<Rightarrow> addr \<Rightarrow> addr \<Rightarrow> nat \<Rightarrow> machine \<Rightarrow> machine \<Rightarrow> bool" where
  "stays_in c d s n st st1 =
     (take (length (trace st)) (trace st1) = trace st \<and>
      list_all (in_bounds c d s n) (accesses st st1))"

text \<open>The number of bytes the alignment fixup copies.\<close>

definition align_bytes :: "config \<Rightarrow> addr \<Rightarrow> nat" where
  "align_bytes c dest =
     (if HAVE_EFFICIENT_UNALIGNED_ACCESS c then 0
      else (bytes_long c - dest mod bytes_long c) mod bytes_long c)"

text \<open>The value \<open>distance\<close> has after line 45.\<close>

definition distance_of :: "config \<Rightarrow> addr \<Rightarrow> addr \<Rightarrow> nat" where
  "distance_of c dest src =
     (if HAVE_EFFICIENT_UNALIGNED_ACCESS c then 0
      else (src + align_bytes c dest) mod bytes_long c)"

text \<open>The number of bytes copied before the remainder loop starts.\<close>

definition word_phase_bytes :: "config \<Rightarrow> addr \<Rightarrow> addr \<Rightarrow> nat \<Rightarrow> nat" where
  "word_phase_bytes c dest src count =
     align_bytes c dest +
       (if distance_of c dest src \<noteq> 0
        then bytes_long c * shift_words c (count - align_bytes c dest)
        else bytes_long c * ((count - align_bytes c dest) div bytes_long c))"

text \<open>Components of the tuples the phases return: the count left, and \<open>distance\<close>.\<close>

definition remaining :: "machine \<times> addr \<times> addr \<times> nat \<Rightarrow> nat" where
  "remaining r = snd (snd (snd r))"

definition distance_after :: "machine \<times> addr \<times> addr \<times> nat \<times> nat \<Rightarrow> nat" where
  "distance_after r = snd (snd (snd (snd r)))"

text \<open>The accesses of a byte loop and of the plain word loop over the indices \<open>js\<close>.\<close>

definition byte_pairs :: "addr \<Rightarrow> addr \<Rightarrow> nat list \<Rightarrow> access list" where
  "byte_pairs d s js = concat (map (\<lambda>i. [LoadB (s + i), StoreB (d + i)]) js)"

definition word_pairs :: "config \<Rightarrow> addr \<Rightarrow> addr \<Rightarrow> nat list \<Rightarrow> access list" where
  "word_pairs c d s js =
     concat (map (\<lambda>j. [LoadW (s + bytes_long c * j), StoreW (d + bytes_long c * j)]) js)"

text \<open>Concrete inputs used to instantiate the theorems below.\<close>

definition rv64 :: config where
  "rv64 = \<lparr>width = L64, HAVE_EFFICIENT_UNALIGNED_ACCESS = False\<rparr>"

definition rv64_fast :: config where
  "rv64_fast = \<lparr>width = L64, HAVE_EFFICIENT_UNALIGNED_ACCESS = True\<rparr>"

definition pattern :: "addr \<Rightarrow> u8" where
  "pattern a = of_nat a"

definition boot :: machine where
  "boot = \<lparr>mem = pattern, trace = []\<rparr>"

section \<open>Configuration facts\<close>

declare align_loop.simps [simp del] shift_loop.simps [simp del] word_loop.simps [simp del]

lemma and_mask_mod: "d AND mask_long c = d mod bytes_long c"
proof (cases "width c")
  case L32
  have "d AND 3 = take_bit 2 d"
    by (simp add: take_bit_eq_mask mask_eq_exp_minus_1)
  then show ?thesis
    using L32 by (simp add: mask_long_def bytes_long_def BITS_PER_LONG_def take_bit_eq_mod)
next
  case L64
  have "d AND 7 = take_bit 3 d"
    by (simp add: take_bit_eq_mask mask_eq_exp_minus_1)
  then show ?thesis
    using L64 by (simp add: mask_long_def bytes_long_def BITS_PER_LONG_def take_bit_eq_mod)
qed

lemma bytes_long_pos: "0 < bytes_long c"
  by (cases "width c") (simp_all add: bytes_long_def BITS_PER_LONG_def)

lemma bits_per_long: "BITS_PER_LONG c = 8 * bytes_long c"
  by (cases "width c") (simp_all add: bytes_long_def BITS_PER_LONG_def)

lemma bytes_long_cases: "bytes_long c = 4 \<or> bytes_long c = 8"
  by (cases "width c") (simp_all add: bytes_long_def BITS_PER_LONG_def)

lemma min_threshold: "MIN_THRESHOLD c = 2 * bytes_long c"
  by (simp add: MIN_THRESHOLD_def bytes_long_def)

section \<open>Little-endian words\<close>

lemma bit_le_word: "bit (le_word m a n) k \<longleftrightarrow> k < 8 * n \<and> bit (m (a + k div 8)) (k mod 8)"
proof (induction n arbitrary: a k)
  case 0
  then show ?case by simp
next
  case (Suc n)
  show ?case
  proof (cases "k < 8")
    case True
    then show ?thesis
      by (simp add: bit_or_iff bit_push_bit_iff bit_unsigned_iff)
  next
    case False
    then obtain j where k: "k = j + 8"
      by (metis le_add_diff_inverse2 not_less)
    have nb: "\<not> bit (m a) k"
      using False bit_imp_le_length [of "m a" k] by auto
    have dv: "(j + 8) div 8 = Suc (j div 8)" and md: "(j + 8) mod 8 = j mod 8"
      by simp_all
    show ?thesis
      using nb Suc.IH [of "Suc a" j]
      by (simp add: k bit_or_iff bit_push_bit_iff bit_unsigned_iff dv md del: div_add_self2 mod_add_self2)
  qed
qed

lemma byte_of_le_word: "i < n \<Longrightarrow> byte_of (le_word m a n) i = m (a + i)"
proof (rule bit_word_eqI)
  fix k
  assume "i < n" and "k < LENGTH(8)"
  then have "k < 8" by simp
  then have "(8 * i + k) div 8 = i" "(8 * i + k) mod 8 = k" "8 * i + k < 8 * n"
    using \<open>i < n\<close> by simp_all
  then show "bit (byte_of (le_word m a n) i) k = bit (m (a + i)) k"
    using \<open>k < 8\<close>
    by (simp add: byte_of_def bit_of_nat_iff bit_drop_bit_eq bit_le_word add.commute [of k])
qed

lemma le_word_cong: "(\<And>i. i < n \<Longrightarrow> m (a + i) = m' (a + i)) \<Longrightarrow> le_word m a n = le_word m' a n"
proof (induction n arbitrary: a)
  case 0
  then show ?case by simp
next
  case (Suc n)
  have "m a = m' a" using Suc.prems [of 0] by simp
  moreover have "le_word m (Suc a) n = le_word m' (Suc a) n"
    using Suc.prems [of "Suc i" for i] by (intro Suc.IH) simp
  ultimately show ?case by simp
qed

lemma le_word_less: "le_word m a n < 2 ^ (8 * n)"
proof -
  have "take_bit (8 * n) (le_word m a n) = le_word m a n"
    by (rule bit_eqI) (simp add: bit_take_bit_iff bit_le_word)
  then show ?thesis
    by (metis take_bit_nat_less_exp)
qed

lemma byte_of_shift_merge:
  assumes "0 < dist" "dist < bytes_long c" "i < bytes_long c" "lw < 2 ^ BITS_PER_LONG c"
  shows "byte_of (shift_merge c lw nw dist) i =
     (if i + dist < bytes_long c then byte_of lw (i + dist) else byte_of nw (i + dist - bytes_long c))"
proof (rule bit_word_eqI)
  fix k
  assume "k < LENGTH(8)"
  then have k: "k < 8" by simp
  note bits = bits_per_long [of c]
  have "take_bit (8 * bytes_long c) lw = lw"
    using assms(4) by (simp add: bits take_bit_nat_eq_self)
  then have hi: "bit lw j \<Longrightarrow> j < 8 * bytes_long c" for j
    by (metis bit_take_bit_iff)
  show "bit (byte_of (shift_merge c lw nw dist) i) k =
     bit (if i + dist < bytes_long c then byte_of lw (i + dist) else byte_of nw (i + dist - bytes_long c)) k"
  proof (cases "i + dist < bytes_long c")
    case True
    then have "\<not> (bytes_long c - dist) * 8 \<le> 8 * i + k"
      using k by (simp add: algebra_simps) 
    then show ?thesis
      using True k
      by (simp add: byte_of_def shift_merge_def bit_of_nat_iff bit_drop_bit_eq bit_or_iff
          bit_take_bit_iff bit_push_bit_iff algebra_simps)
  next
    case False
    have "\<not> bit lw (8 * i + dist * 8 + k)"
      using hi [of "8 * i + dist * 8 + k"] False by auto
    moreover have "(bytes_long c - dist) * 8 \<le> 8 * i + k"
      using False assms by (simp add: algebra_simps)
    moreover have "8 * i + k < 8 * bytes_long c"
      using k assms by simp
    moreover have "8 * i + k - (bytes_long c - dist) * 8 = 8 * (i + dist - bytes_long c) + k"
      using False assms by (simp add: algebra_simps)
    ultimately show ?thesis
      using k False
      by (simp add: byte_of_def shift_merge_def bit_of_nat_iff bit_drop_bit_eq bit_or_iff
          bit_take_bit_iff bit_push_bit_iff bits add.commute [of k])
  qed
qed

section \<open>Single accesses and the byte loops\<close>

lemma mem_copy_byte: "mem (copy_byte st d s) = (mem st)(d := mem st s)"
  by (simp add: copy_byte_def load_u8_def store_u8_def)

lemma trace_copy_byte: "trace (copy_byte st d s) = trace st @ [LoadB s, StoreB d]"
  by (simp add: copy_byte_def load_u8_def store_u8_def)

lemma blit_in: "d \<le> a \<Longrightarrow> a < d + k \<Longrightarrow> blit m d s k a = m (s + (a - d))"
  unfolding blit_def by simp

lemma blit_out: "a < d \<or> d + k \<le> a \<Longrightarrow> blit m d s k a = m a"
  unfolding blit_def by auto

lemma mem_store_word_in:
  "d \<le> a \<Longrightarrow> a < d + bytes_long c \<Longrightarrow> mem (store_ulong c st d w) a = byte_of w (a - d)"
  by (simp add: store_ulong_def)

lemma mem_store_word_out:
  "a < d \<or> d + bytes_long c \<le> a \<Longrightarrow> mem (store_ulong c st d w) a = mem st a"
  by (auto simp: store_ulong_def)

lemma trace_store_word: "trace (store_ulong c st d w) = trace st @ [StoreW d]"
  by (simp add: store_ulong_def)

lemma copy_word_eq:
  "copy_word c st d s =
     store_ulong c (st\<lparr>trace := trace st @ [LoadW s]\<rparr>) d (le_word (mem st) s (bytes_long c))"
  by (simp add: copy_word_def load_ulong_def)

lemma mem_copy_word: "mem (copy_word c st d s) = blit (mem st) d s (bytes_long c)"
proof (rule ext)
  fix a
  show "mem (copy_word c st d s) a = blit (mem st) d s (bytes_long c) a"
  proof (cases "d \<le> a \<and> a < d + bytes_long c")
    case True
    then have "a - d < bytes_long c"
      by arith
    then have "byte_of (le_word (mem st) s (bytes_long c)) (a - d) = mem st (s + (a - d))"
      by (rule byte_of_le_word)
    then show ?thesis
      using True by (simp only: copy_word_eq mem_store_word_in blit_in)
  next
    case False
    then have "a < d \<or> d + bytes_long c \<le> a"
      by arith
    then show ?thesis
      by (simp add: copy_word_eq mem_store_word_out blit_out)
  qed
qed

lemma trace_copy_word: "trace (copy_word c st d s) = trace st @ [LoadW s, StoreW d]"
  by (simp add: copy_word_def load_ulong_def store_ulong_def)

lemma blit_0: "blit m d s 0 = m"
  by (rule ext) (auto simp: blit_def)

lemma blit_1: "blit m d s (Suc 0) = m(d := m s)"
proof (rule ext)
  fix a
  show "blit m d s (Suc 0) a = (m(d := m s)) a"
  proof (cases "a = d")
    case True
    then show ?thesis
      using blit_in [of d a "Suc 0" m s] by simp
  next
    case False
    then have "a < d \<or> d + Suc 0 \<le> a"
      by arith
    then show ?thesis
      using False by (simp add: blit_out)
  qed
qed

lemma blit_blit:
  assumes "d \<le> s \<or> s + (j + k) \<le> d"
  shows "blit (blit m d s j) (d + j) (s + j) k = blit m d s (j + k)"
proof (rule ext)
  fix a
  consider (lo) "a < d" | (mid) "d \<le> a" "a < d + j" | (hi) "d + j \<le> a" "a < d + j + k"
    | (out) "d + j + k \<le> a"
    by arith
  then show "blit (blit m d s j) (d + j) (s + j) k a = blit m d s (j + k) a"
  proof cases
    case lo
    then show ?thesis
      by (simp add: blit_out)
  next
    case mid
    then have "blit (blit m d s j) (d + j) (s + j) k a = blit m d s j a"
      by (intro blit_out) simp
    also have "\<dots> = m (s + (a - d))"
      using mid by (intro blit_in)
    also have "\<dots> = blit m d s (j + k) a"
      using mid by (intro blit_in [symmetric]) simp_all
    finally show ?thesis .
  next
    case hi
    have eq: "s + j + (a - (d + j)) = s + (a - d)"
      using hi by arith
    have "s + (a - d) < d \<or> d + j \<le> s + (a - d)"
      using hi assms by arith
    then have "blit m d s j (s + (a - d)) = m (s + (a - d))"
      by (rule blit_out)
    moreover have "blit (blit m d s j) (d + j) (s + j) k a = blit m d s j (s + j + (a - (d + j)))"
      using hi by (intro blit_in)
    moreover have "blit m d s (j + k) a = m (s + (a - d))"
      using hi by (intro blit_in) simp_all
    ultimately show ?thesis
      by (simp only: eq)
  next
    case out
    then show ?thesis
      by (simp add: blit_out)
  qed
qed

lemma mem_copy_remainder:
  "d \<le> s \<or> s + n \<le> d \<Longrightarrow> mem (copy_remainder st d s n) = blit (mem st) d s n"
proof (induction n arbitrary: st d s)
  case 0
  then show ?case by (simp add: blit_0)
next
  case (Suc n)
  have "mem (copy_remainder (copy_byte st d s) (Suc d) (Suc s) n)
      = blit (mem (copy_byte st d s)) (Suc d) (Suc s) n"
    using Suc.prems by (intro Suc.IH) arith
  also have "\<dots> = blit (blit (mem st) d s 1) (d + 1) (s + 1) n"
    by (simp add: mem_copy_byte blit_1)
  also have "\<dots> = blit (mem st) d s (1 + n)"
    using Suc.prems by (intro blit_blit) arith
  finally show ?case by simp
qed

lemma frame_copy_remainder:
  "a < d \<or> d + n \<le> a \<Longrightarrow> mem (copy_remainder st d s n) a = mem st a"
  by (induction n arbitrary: st d s) (auto simp: mem_copy_byte)

lemma align_loop_eq:
  "align_loop c st d s count =
     (copy_remainder st d s ((bytes_long c - d mod bytes_long c) mod bytes_long c),
      d + (bytes_long c - d mod bytes_long c) mod bytes_long c,
      s + (bytes_long c - d mod bytes_long c) mod bytes_long c,
      count - (bytes_long c - d mod bytes_long c) mod bytes_long c)"
proof (induction c st d s count rule: align_loop.induct)
  case (1 c st d s count)
  let ?b = "bytes_long c"
  show ?case
  proof (cases "d mod ?b = 0")
    case True
    then show ?thesis
      by (subst align_loop.simps) (simp add: and_mask_mod)
  next
    case False
    have lt: "d mod ?b < ?b"
      using bytes_long_pos by simp
    have "(d + 1) mod ?b = (if Suc (d mod ?b) = ?b then 0 else Suc (d mod ?b))"
      by (simp add: mod_Suc)
    then have j: "(?b - d mod ?b) mod ?b = Suc ((?b - (d + 1) mod ?b) mod ?b)"
      using False lt by (auto split: if_splits)
    show ?thesis
      using False "1.IH"
      by (subst align_loop.simps) (simp add: and_mask_mod j)
  qed
qed

section \<open>The word loops\<close>

lemma word_loop_step:
  "bytes_long c \<le> count \<Longrightarrow>
     word_loop c st d s count =
       word_loop c (copy_word c st d s) (d + bytes_long c) (s + bytes_long c) (count - bytes_long c)"
  by (subst word_loop.simps) simp

lemma word_loop_stop: "count < bytes_long c \<Longrightarrow> word_loop c st d s count = (st, d, s, count)"
  by (subst word_loop.simps) simp

lemma shift_loop_step:
  "bytes_long c + mask_long c \<le> count \<Longrightarrow>
     shift_loop c st d s count nw dist =
       shift_loop c
         (store_ulong c (st\<lparr>trace := trace st @ [LoadW (s + bytes_long c)]\<rparr>) d
            (shift_merge c nw (le_word (mem st) (s + bytes_long c) (bytes_long c)) dist))
         (d + bytes_long c) (s + bytes_long c) (count - bytes_long c)
         (le_word (mem st) (s + bytes_long c) (bytes_long c)) dist"
  by (subst shift_loop.simps) (simp add: load_ulong_def)

lemma shift_loop_stop:
  "count < bytes_long c + mask_long c \<Longrightarrow> shift_loop c st d s count nw dist = (st, d, s, count)"
  by (subst shift_loop.simps) simp

lemma word_loop_ptrs:
  "snd (word_loop c st d s count) =
     (d + bytes_long c * (count div bytes_long c), s + bytes_long c * (count div bytes_long c),
      count mod bytes_long c)"
proof (induction count arbitrary: st d s rule: less_induct)
  case (less count)
  show ?case
  proof (cases "bytes_long c \<le> count")
    case True
    then have "count - bytes_long c < count"
      using bytes_long_pos [of c] by arith
    then show ?thesis
      using True less.IH [of "count - bytes_long c"]
      by (simp add: word_loop_step le_div_geq le_mod_geq bytes_long_pos)
  next
    case False
    then show ?thesis
      by (simp add: word_loop_stop)
  qed
qed

lemma mem_word_loop:
  "d \<le> s \<or> s + count \<le> d \<Longrightarrow>
     mem (fst (word_loop c st d s count)) = blit (mem st) d s (bytes_long c * (count div bytes_long c))"
proof (induction count arbitrary: st d s rule: less_induct)
  case (less count)
  let ?b = "bytes_long c"
  show ?case
  proof (cases "?b \<le> count")
    case True
    then have lt: "count - ?b < count"
      using bytes_long_pos [of c] by arith
    have dv: "count div ?b = Suc ((count - ?b) div ?b)"
      using True by (simp add: le_div_geq bytes_long_pos)
    have le: "?b * ((count - ?b) div ?b) \<le> count - ?b"
      by simp
    have "mem (fst (word_loop c st d s count))
        = blit (mem (copy_word c st d s)) (d + ?b) (s + ?b) (?b * ((count - ?b) div ?b))"
      using True less.prems by (simp only: word_loop_step) (intro less.IH [OF lt], arith)
    also have "\<dots> = blit (mem st) d s (?b + ?b * ((count - ?b) div ?b))"
      unfolding mem_copy_word using less.prems True le by (intro blit_blit) arith
    finally show ?thesis
      by (simp add: dv)
  next
    case False
    then show ?thesis
      by (simp add: word_loop_stop blit_0)
  qed
qed

lemma frame_word_loop:
  "a < d \<or> d + count \<le> a \<Longrightarrow> mem (fst (word_loop c st d s count)) a = mem st a"
proof (induction count arbitrary: st d s rule: less_induct)
  case (less count)
  let ?b = "bytes_long c"
  show ?case
  proof (cases "?b \<le> count")
    case True
    then have lt: "count - ?b < count"
      using bytes_long_pos [of c] by arith
    have "mem (fst (word_loop c st d s count)) a = mem (copy_word c st d s) a"
      using True less.prems by (simp only: word_loop_step) (intro less.IH [OF lt], arith)
    also have "\<dots> = mem st a"
      unfolding mem_copy_word using less.prems True by (intro blit_out) arith
    finally show ?thesis .
  next
    case False
    then show ?thesis
      by (simp add: word_loop_stop)
  qed
qed

lemma shift_guard: "bytes_long c + mask_long c = 2 * bytes_long c - 1"
  using bytes_long_pos [of c] by (simp add: mask_long_def)

lemma shift_words_step:
  assumes "bytes_long c + mask_long c \<le> count"
  shows "shift_words c count = Suc (shift_words c (count - bytes_long c))"
proof -
  let ?b = "bytes_long c"
  have b: "0 < ?b" by (rule bytes_long_pos)
  have ge: "2 * ?b \<le> count + 1"
    using assms b by (simp add: mask_long_def)
  then have "(count + 1) div ?b = Suc ((count + 1 - ?b) div ?b)"
    using b by (simp add: le_div_geq)
  moreover have "count + 1 - ?b = count - ?b + 1"
    using ge b by arith
  moreover have "1 \<le> (count + 1 - ?b) div ?b"
    using ge b by (simp add: less_eq_div_iff_mult_less_eq)
  ultimately show ?thesis
    unfolding shift_words_def by simp
qed

lemma shift_words_stop:
  assumes "count < bytes_long c + mask_long c"
  shows "shift_words c count = 0"
proof -
  let ?b = "bytes_long c"
  have b: "0 < ?b" by (rule bytes_long_pos)
  have "count + 1 < ?b * 2"
    using assms b by (simp add: mask_long_def)
  then have "(count + 1) div ?b < 2"
    using b by (simp add: less_mult_imp_div_less mult.commute)
  then show ?thesis
    unfolding shift_words_def by simp
qed

lemma shift_words_le: "bytes_long c * shift_words c count \<le> count"
proof -
  let ?b = "bytes_long c"
  let ?q = "(count + 1) div ?b"
  have b: "0 < ?b" by (rule bytes_long_pos)
  have "?b * ?q \<le> count + 1"
    by simp
  moreover have "?b * (?q - 1) = ?b * ?q - ?b"
    by (simp add: diff_mult_distrib2)
  ultimately have "?b * (?q - 1) \<le> count"
    using b by arith
  then show ?thesis
    unfolding shift_words_def .
qed

lemma shift_words_left: "count - bytes_long c * shift_words c count < bytes_long c + mask_long c"
proof (induction count rule: less_induct)
  case (less count)
  let ?b = "bytes_long c"
  show ?case
  proof (cases "?b + mask_long c \<le> count")
    case True
    then have lt: "count - ?b < count"
      using bytes_long_pos [of c] by arith
    have "count - ?b * shift_words c count = count - ?b - ?b * shift_words c (count - ?b)"
      using True by (simp add: shift_words_step)
    then show ?thesis
      using less.IH [OF lt] by simp
  next
    case False
    then show ?thesis
      by (simp add: shift_words_stop)
  qed
qed

lemma shift_loop_ptrs:
  "snd (shift_loop c st d s count nw dist) =
     (d + bytes_long c * shift_words c count,
      s + bytes_long c * shift_words c count,
      count - bytes_long c * shift_words c count)"
proof (induction count arbitrary: st d s nw rule: less_induct)
  case (less count)
  let ?b = "bytes_long c"
  show ?case
  proof (cases "?b + mask_long c \<le> count")
    case True
    then have lt: "count - ?b < count"
      using bytes_long_pos [of c] by arith
    show ?thesis
      using True
      by (simp only: shift_loop_step less.IH [OF lt] shift_words_step) (simp add: algebra_simps)
  next
    case False
    then show ?thesis
      by (simp add: shift_loop_stop shift_words_stop)
  qed
qed

lemma frame_shift_loop:
  "a < d \<or> d + count \<le> a \<Longrightarrow> mem (fst (shift_loop c st d s count nw dist)) a = mem st a"
proof (induction count arbitrary: st d s nw rule: less_induct)
  case (less count)
  let ?b = "bytes_long c"
  show ?case
  proof (cases "?b + mask_long c \<le> count")
    case True
    then have lt: "count - ?b < count"
      using bytes_long_pos [of c] by arith
    let ?st1 = "store_ulong c (st\<lparr>trace := trace st @ [LoadW (s + ?b)]\<rparr>) d
            (shift_merge c nw (le_word (mem st) (s + ?b) ?b) dist)"
    have "mem (fst (shift_loop c st d s count nw dist)) a = mem ?st1 a"
      using True less.prems by (simp only: shift_loop_step) (intro less.IH [OF lt], arith)
    also have "\<dots> = mem st a"
      using less.prems True by (subst mem_store_word_out) (arith, simp)
    finally show ?thesis .
  next
    case False
    then show ?thesis
      by (simp add: shift_loop_stop)
  qed
qed

lemma mem_shift_step:
  assumes dist: "0 < dist" "dist < bytes_long c"
    and nw: "nw < 2 ^ BITS_PER_LONG c"
    and held: "\<And>i. dist \<le> i \<Longrightarrow> i < bytes_long c \<Longrightarrow> byte_of nw i = mem st (s + i)"
    and that: "mem st1 = mem st"
  shows "mem (store_ulong c st1 d
            (shift_merge c nw (le_word (mem st) (s + bytes_long c) (bytes_long c)) dist))
         = blit (mem st1) d (s + dist) (bytes_long c)"
proof (rule ext)
  fix a
  let ?b = "bytes_long c"
  let ?w = "shift_merge c nw (le_word (mem st) (s + ?b) ?b) dist"
  show "mem (store_ulong c st1 d ?w) a = blit (mem st1) d (s + dist) ?b a"
  proof (cases "d \<le> a \<and> a < d + ?b")
    case True
    then have i: "a - d < ?b"
      by arith
    have merged: "byte_of ?w (a - d) =
        (if a - d + dist < ?b then byte_of nw (a - d + dist)
         else byte_of (le_word (mem st) (s + ?b) ?b) (a - d + dist - ?b))"
      using dist i nw by (rule byte_of_shift_merge)
    have "byte_of ?w (a - d) = mem st (s + dist + (a - d))"
    proof (cases "a - d + dist < ?b")
      case True
      then have "byte_of ?w (a - d) = byte_of nw (a - d + dist)"
        by (simp only: merged if_True)
      also have "\<dots> = mem st (s + (a - d + dist))"
        using True by (intro held) simp_all
      also have "s + (a - d + dist) = s + dist + (a - d)"
        by arith
      finally show ?thesis .
    next
      case False
      then have "byte_of ?w (a - d) = byte_of (le_word (mem st) (s + ?b) ?b) (a - d + dist - ?b)"
        by (simp only: merged if_False)
      also have "\<dots> = mem st (s + ?b + (a - d + dist - ?b))"
        using False dist i by (intro byte_of_le_word) arith
      also have "s + ?b + (a - d + dist - ?b) = s + dist + (a - d)"
        using False by arith
      finally show ?thesis .
    qed
    then show ?thesis
      using True that by (simp only: mem_store_word_in blit_in)
  next
    case False
    then have "a < d \<or> d + ?b \<le> a"
      by arith
    then show ?thesis
      by (simp only: mem_store_word_out blit_out)
  qed
qed

lemma mem_shift_loop:
  assumes "0 < dist" "dist < bytes_long c"
    and "d \<le> s \<or> s + dist + count \<le> d"
    and "nw < 2 ^ BITS_PER_LONG c"
    and "\<And>i. dist \<le> i \<Longrightarrow> i < bytes_long c \<Longrightarrow> byte_of nw i = mem st (s + i)"
  shows "mem (fst (shift_loop c st d s count nw dist))
     = blit (mem st) d (s + dist) (bytes_long c * shift_words c count)"
  using assms
proof (induction count arbitrary: st d s nw rule: less_induct)
  case (less count)
  let ?b = "bytes_long c"
  note dist = less.prems(1,2) and safe = less.prems(3) and nw = less.prems(4) and held = less.prems(5)
  show ?case
  proof (cases "?b + mask_long c \<le> count")
    case True
    then have lt: "count - ?b < count"
      using bytes_long_pos [of c] by arith
    have big: "2 * ?b \<le> count + 1"
      using True bytes_long_pos [of c] by (simp add: mask_long_def)
    let ?nx = "le_word (mem st) (s + ?b) ?b"
    let ?st1 = "st\<lparr>trace := trace st @ [LoadW (s + ?b)]\<rparr>"
    let ?st2 = "store_ulong c ?st1 d (shift_merge c nw ?nx dist)"
    have m2: "mem ?st2 = blit (mem st) d (s + dist) ?b"
      using mem_shift_step [OF dist nw held, of ?st1 d] by simp
    have nx: "?nx < 2 ^ BITS_PER_LONG c"
      using le_word_less [of "mem st" "s + ?b" ?b] by (simp add: bits_per_long)
    have safe': "d + ?b \<le> s + ?b \<or> s + ?b + dist + (count - ?b) \<le> d + ?b"
      using safe big by arith
    have held': "byte_of ?nx i = mem ?st2 (s + ?b + i)" if "dist \<le> i" "i < ?b" for i
    proof -
      have "s + ?b + i < d \<or> d + ?b \<le> s + ?b + i"
        using safe big dist that by arith
      then have "mem ?st2 (s + ?b + i) = mem st (s + ?b + i)"
        unfolding m2 by (rule blit_out)
      then show ?thesis
        using that by (simp add: byte_of_le_word)
    qed
    have "mem (fst (shift_loop c st d s count nw dist))
        = mem (fst (shift_loop c ?st2 (d + ?b) (s + ?b) (count - ?b) ?nx dist))"
      using True by (simp only: shift_loop_step)
    also have "\<dots> = blit (mem ?st2) (d + ?b) (s + ?b + dist) (?b * shift_words c (count - ?b))"
      using dist safe' nx held' by (rule less.IH [OF lt])
    also have "\<dots> = blit (blit (mem st) d (s + dist) ?b) (d + ?b) (s + dist + ?b)
        (?b * shift_words c (count - ?b))"
      by (simp only: m2 add.assoc add.commute [of ?b dist])
    also have "\<dots> = blit (mem st) d (s + dist) (?b + ?b * shift_words c (count - ?b))"
    proof (rule blit_blit)
      have "?b * shift_words c (count - ?b) \<le> count - ?b"
        by (rule shift_words_le)
      then show "d \<le> s + dist \<or> s + dist + (?b + ?b * shift_words c (count - ?b)) \<le> d"
        using safe big by arith
    qed
    also have "?b + ?b * shift_words c (count - ?b) = ?b * shift_words c count"
      using True by (simp add: shift_words_step)
    finally show ?thesis .
  next
    case False
    then show ?thesis
      by (simp add: shift_loop_stop shift_words_stop blit_0)
  qed
qed

section \<open>Traces of the loops\<close>

lemma concat_map_upt_Suc:
  "concat (map f [0..<Suc n]) = f 0 @ concat (map (\<lambda>j. f (Suc j)) [0..<n])"
proof -
  have "[0..<Suc n] = 0 # map Suc [0..<n]"
    by (simp add: upt_conv_Cons map_Suc_upt del: upt_Suc)
  then show ?thesis
    by (simp add: comp_def del: upt_Suc)
qed

lemma trace_copy_remainder:
  "trace (copy_remainder st d s n)
     = trace st @ concat (map (\<lambda>j. [LoadB (s + j), StoreB (d + j)]) [0..<n])"
proof (induction n arbitrary: st d s)
  case 0
  then show ?case by simp
next
  case (Suc n)
  show ?case
    by (simp only: copy_remainder.simps Suc.IH trace_copy_byte concat_map_upt_Suc) simp
qed

lemma trace_backward_loop:
  "trace (backward_loop st tmp s n)
     = trace st @ concat (map (\<lambda>j. [LoadB (s - Suc j), StoreB (tmp - Suc j)]) [0..<n])"
proof (induction n arbitrary: st tmp s)
  case 0
  then show ?case by simp
next
  case (Suc n)
  show ?case
    by (simp only: backward_loop.simps Suc.IH trace_copy_byte concat_map_upt_Suc) simp
qed

lemma trace_word_loop:
  "trace (fst (word_loop c st d s count))
     = trace st @ concat (map (\<lambda>j. [LoadW (s + bytes_long c * j), StoreW (d + bytes_long c * j)])
         [0..<count div bytes_long c])"
proof (induction count arbitrary: st d s rule: less_induct)
  case (less count)
  let ?b = "bytes_long c"
  show ?case
  proof (cases "?b \<le> count")
    case True
    then have lt: "count - ?b < count"
      using bytes_long_pos [of c] by arith
    have dv: "count div ?b = Suc ((count - ?b) div ?b)"
      using True by (simp add: le_div_geq bytes_long_pos)
    show ?thesis
      using True
      by (simp only: word_loop_step less.IH [OF lt] dv concat_map_upt_Suc trace_copy_word)
         (simp add: algebra_simps)
  next
    case False
    then show ?thesis
      by (simp add: word_loop_stop)
  qed
qed

lemma trace_shift_loop:
  "trace (fst (shift_loop c st d s count nw dist))
     = trace st @ concat (map (\<lambda>j. [LoadW (s + bytes_long c * Suc j), StoreW (d + bytes_long c * j)])
         [0..<shift_words c count])"
proof (induction count arbitrary: st d s nw rule: less_induct)
  case (less count)
  let ?b = "bytes_long c"
  show ?case
  proof (cases "?b + mask_long c \<le> count")
    case True
    then have lt: "count - ?b < count"
      using bytes_long_pos [of c] by arith
    show ?thesis
      using True
      by (simp only: shift_loop_step less.IH [OF lt] shift_words_step concat_map_upt_Suc
            trace_store_word)
         (simp add: algebra_simps)
  next
    case False
    then show ?thesis
      by (simp add: shift_loop_stop shift_words_stop)
  qed
qed

section \<open>The shifted copy as a whole\<close>

lemma shifted_copy_eq:
  "shifted_copy c st d s count dist =
     (case shift_loop c (st\<lparr>trace := trace st @ [LoadW (s - dist)]\<rparr>) d (s - dist) count
             (le_word (mem st) (s - dist) (bytes_long c)) dist of
        (st2, d2, s2, count2) \<Rightarrow> (st2, d2, s2 + dist, count2))"
  by (simp add: shifted_copy_def load_ulong_def)

lemma fst_shifted_copy:
  "fst (shifted_copy c st d s count dist) =
     fst (shift_loop c (st\<lparr>trace := trace st @ [LoadW (s - dist)]\<rparr>) d (s - dist) count
             (le_word (mem st) (s - dist) (bytes_long c)) dist)"
  by (simp add: shifted_copy_eq split: prod.splits)

lemma shifted_copy_ptrs:
  assumes "dist \<le> s"
  shows "snd (shifted_copy c st d s count dist) =
     (d + bytes_long c * shift_words c count,
      s + bytes_long c * shift_words c count,
      count - bytes_long c * shift_words c count)"
proof -
  let ?r = "shift_loop c (st\<lparr>trace := trace st @ [LoadW (s - dist)]\<rparr>) d (s - dist) count
             (le_word (mem st) (s - dist) (bytes_long c)) dist"
  have "snd ?r = (d + bytes_long c * shift_words c count,
      s - dist + bytes_long c * shift_words c count,
      count - bytes_long c * shift_words c count)"
    by (rule shift_loop_ptrs)
  then show ?thesis
    using assms by (cases ?r) (simp add: shifted_copy_eq)
qed

lemma mem_shifted_copy:
  assumes "0 < dist" "dist < bytes_long c" "dist \<le> s"
    and "d \<le> s - dist \<or> s + count \<le> d"
  shows "mem (fst (shifted_copy c st d s count dist))
     = blit (mem st) d s (bytes_long c * shift_words c count)"
proof -
  let ?st1 = "st\<lparr>trace := trace st @ [LoadW (s - dist)]\<rparr>"
  let ?nw = "le_word (mem st) (s - dist) (bytes_long c)"
  have nw: "?nw < 2 ^ BITS_PER_LONG c"
    using le_word_less [of "mem st" "s - dist" "bytes_long c"] by (simp add: bits_per_long)
  have safe: "d \<le> s - dist \<or> s - dist + dist + count \<le> d"
    using assms by arith
  have held: "byte_of ?nw i = mem ?st1 (s - dist + i)" if "dist \<le> i" "i < bytes_long c" for i
    using that by (simp add: byte_of_le_word)
  have "mem (fst (shift_loop c ?st1 d (s - dist) count ?nw dist))
      = blit (mem ?st1) d (s - dist + dist) (bytes_long c * shift_words c count)"
    using assms(1,2) safe nw held by (rule mem_shift_loop)
  then show ?thesis
    using assms(3) by (simp add: fst_shifted_copy)
qed

lemma frame_shifted_copy:
  "a < d \<or> d + count \<le> a \<Longrightarrow> mem (fst (shifted_copy c st d s count dist)) a = mem st a"
  by (simp add: fst_shifted_copy frame_shift_loop)

lemma trace_shifted_copy:
  "trace (fst (shifted_copy c st d s count dist))
     = trace st @ LoadW (s - dist) #
         concat (map (\<lambda>j. [LoadW (s - dist + bytes_long c * Suc j), StoreW (d + bytes_long c * j)])
           [0..<shift_words c count])"
  by (simp add: fst_shifted_copy trace_shift_loop)

section \<open>Accesses stay inside the regions\<close>

lemma stays_inI:
  "trace st1 = trace st @ evs \<Longrightarrow> list_all (in_bounds c d s n) evs \<Longrightarrow> stays_in c d s n st st1"
  by (simp add: stays_in_def accesses_def)

lemma stays_inD:
  "stays_in c d s n st st1 \<Longrightarrow> trace st1 = trace st @ accesses st st1"
  unfolding stays_in_def accesses_def by (metis append_take_drop_id)

lemma stays_in_refl: "stays_in c d s n st st"
  by (simp add: stays_in_def accesses_def)

lemma stays_in_trans:
  assumes "stays_in c d s n st st1" "stays_in c d s n st1 st2"
  shows "stays_in c d s n st st2"
proof -
  have "trace st2 = trace st @ (accesses st st1 @ accesses st1 st2)"
    using stays_inD [OF assms(1)] stays_inD [OF assms(2)] by simp
  moreover have "list_all (in_bounds c d s n) (accesses st st1 @ accesses st1 st2)"
    using assms by (simp add: stays_in_def)
  ultimately show ?thesis
    by (rule stays_inI)
qed

lemma in_bounds_shift:
  "in_bounds c (d + j) (s + j) (n - j) e \<Longrightarrow> j \<le> n \<Longrightarrow> in_bounds c d s n e"
  by (cases e) auto

lemma stays_in_shift:
  "stays_in c (d + j) (s + j) (n - j) st st1 \<Longrightarrow> j \<le> n \<Longrightarrow> stays_in c d s n st st1"
  unfolding stays_in_def using in_bounds_shift [of c d j s n]
  by (auto simp: list_all_iff)

lemma list_all_pairs:
  "(\<And>j. j < n \<Longrightarrow> P (f j) \<and> P (g j)) \<Longrightarrow> list_all P (concat (map (\<lambda>j. [f j, g j]) [0..<n]))"
  by (auto simp: list_all_iff)

lemma stays_in_copy_remainder: "stays_in c d s n st (copy_remainder st d s n)"
  by (rule stays_inI [OF trace_copy_remainder]) (rule list_all_pairs, simp)

lemma stays_in_backward_loop:
  "stays_in c d s n st (backward_loop st (d + n) (s + n) n)"
proof (rule stays_inI [OF trace_backward_loop], rule list_all_pairs)
  fix j
  assume "j < n"
  then show "in_bounds c d s n (LoadB (s + n - Suc j)) \<and> in_bounds c d s n (StoreB (d + n - Suc j))"
    by (simp, arith)
qed

lemma stays_in_word_loop: "stays_in c d s count st (fst (word_loop c st d s count))"
proof (rule stays_inI [OF trace_word_loop], rule list_all_pairs)
  fix j
  assume "j < count div bytes_long c"
  then have "Suc j \<le> count div bytes_long c"
    by simp
  then have "bytes_long c * Suc j \<le> bytes_long c * (count div bytes_long c)"
    by (rule mult_le_mono2)
  also have "\<dots> \<le> count"
    by simp
  finally show "in_bounds c d s count (LoadW (s + bytes_long c * j)) \<and>
      in_bounds c d s count (StoreW (d + bytes_long c * j))"
    by simp
qed

lemma shift_words_ahead:
  assumes "j < shift_words c count"
  shows "bytes_long c * Suc (Suc j) \<le> count + 1"
proof -
  have "Suc (Suc j) \<le> (count + 1) div bytes_long c"
    using assms unfolding shift_words_def by arith
  then have "bytes_long c * Suc (Suc j) \<le> bytes_long c * ((count + 1) div bytes_long c)"
    by (rule mult_le_mono2)
  also have "\<dots> \<le> count + 1"
    by simp
  finally show ?thesis .
qed

lemma stays_in_shifted_copy:
  assumes "0 < dist" "dist \<le> s" "bytes_long c \<le> count + dist"
  shows "stays_in c d s count st (fst (shifted_copy c st d s count dist))"
proof (rule stays_inI [OF trace_shifted_copy])
  have first: "in_bounds c d s count (LoadW (s - dist))"
    using assms by simp
  have "list_all (in_bounds c d s count)
      (concat (map (\<lambda>j. [LoadW (s - dist + bytes_long c * Suc j), StoreW (d + bytes_long c * j)])
           [0..<shift_words c count]))"
  proof (rule list_all_pairs)
    fix j
    assume j: "j < shift_words c count"
    have "bytes_long c * Suc (Suc j) \<le> count + 1"
      using j by (rule shift_words_ahead)
    then show "in_bounds c d s count (LoadW (s - dist + bytes_long c * Suc j)) \<and>
        in_bounds c d s count (StoreW (d + bytes_long c * j))"
      using assms bytes_long_pos [of c] by simp
  qed
  then show "list_all (in_bounds c d s count)
      (LoadW (s - dist) #
       concat (map (\<lambda>j. [LoadW (s - dist + bytes_long c * Suc j), StoreW (d + bytes_long c * j)])
           [0..<shift_words c count]))"
    using first by simp
qed

section \<open>The phases of \<^verbatim>\<open>__memcpy\<close>\<close>

lemma align_bytes_less: "align_bytes c dest < bytes_long c"
  using bytes_long_pos [of c] by (simp add: align_bytes_def)

lemma align_bytes_aligned:
  "\<not> HAVE_EFFICIENT_UNALIGNED_ACCESS c \<Longrightarrow> (dest + align_bytes c dest) mod bytes_long c = 0"
proof -
  assume slow: "\<not> HAVE_EFFICIENT_UNALIGNED_ACCESS c"
  let ?b = "bytes_long c"
  let ?r = "dest mod ?b"
  have r: "?r < ?b"
    using bytes_long_pos [of c] by simp
  have "(dest + (?b - ?r) mod ?b) mod ?b = (?r + (?b - ?r)) mod ?b"
    by (simp add: mod_simps)
  also have "?r + (?b - ?r) = ?b"
    using r by arith
  finally show ?thesis
    using slow by (simp add: align_bytes_def)
qed

lemma distance_of_less: "distance_of c dest src < bytes_long c"
  using bytes_long_pos [of c] by (simp add: distance_of_def)

lemma align_phase_eq:
  "align_phase c st dest src count =
     (copy_remainder st dest src (align_bytes c dest), dest + align_bytes c dest,
      src + align_bytes c dest, count - align_bytes c dest, distance_of c dest src)"
  by (simp add: align_phase_def align_loop_eq align_bytes_def distance_of_def and_mask_mod)

lemma word_phase_eq:
  "word_phase c st dest src count =
     (if distance_of c dest src \<noteq> 0
      then shifted_copy c (copy_remainder st dest src (align_bytes c dest))
             (dest + align_bytes c dest) (src + align_bytes c dest) (count - align_bytes c dest)
             (distance_of c dest src)
      else word_loop c (copy_remainder st dest src (align_bytes c dest))
             (dest + align_bytes c dest) (src + align_bytes c dest) (count - align_bytes c dest))"
  by (simp add: word_phase_def align_phase_eq)

lemma distance_le: "distance_of c dest src \<le> src + align_bytes c dest"
  by (simp add: distance_of_def)

lemma word_phase_ptrs:
  "snd (word_phase c st dest src count) =
     (dest + word_phase_bytes c dest src count, src + word_phase_bytes c dest src count,
      count - word_phase_bytes c dest src count)"
proof (cases "distance_of c dest src = 0")
  case True
  let ?n = "count - align_bytes c dest"
  have "?n mod bytes_long c = ?n - bytes_long c * (?n div bytes_long c)"
    by (simp add: minus_mult_div_eq_mod)
  then have "?n mod bytes_long c = count - word_phase_bytes c dest src count"
    using True by (simp add: word_phase_bytes_def)
  then show ?thesis
    using True by (simp add: word_phase_eq word_loop_ptrs) (simp add: word_phase_bytes_def)
next
  case False
  have "count - align_bytes c dest - bytes_long c * shift_words c (count - align_bytes c dest)
      = count - word_phase_bytes c dest src count"
    using False by (simp add: word_phase_bytes_def)
  then show ?thesis
    using False shifted_copy_ptrs [OF distance_le]
    by (simp add: word_phase_eq) (simp add: word_phase_bytes_def)
qed

lemma word_phase_bytes_le:
  assumes "MIN_THRESHOLD c \<le> count"
  shows "word_phase_bytes c dest src count \<le> count"
proof -
  let ?j = "align_bytes c dest"
  have j: "?j \<le> count"
    using assms align_bytes_less [of c dest] by (simp add: min_threshold)
  have "bytes_long c * shift_words c (count - ?j) \<le> count - ?j"
    by (rule shift_words_le)
  then have shifted: "?j + bytes_long c * shift_words c (count - ?j) \<le> count"
    using j by linarith
  have "bytes_long c * ((count - ?j) div bytes_long c) \<le> count - ?j"
    by simp
  then have plain: "?j + bytes_long c * ((count - ?j) div bytes_long c) \<le> count"
    using j by linarith
  show ?thesis
    using shifted plain by (simp add: word_phase_bytes_def)
qed

lemma aligned_le_floor:
  fixes a s b :: nat
  assumes "a mod b = 0" "a \<le> s"
  shows "a \<le> s - s mod b"
proof -
  have "b dvd a"
    using assms(1) by (simp add: mod_eq_0_iff_dvd)
  then have "a = b * (a div b)"
    by simp
  also have "\<dots> \<le> b * (s div b)"
    using assms(2) by (intro mult_le_mono2 div_le_mono)
  also have "\<dots> = s - s mod b"
    by (simp add: minus_mod_eq_mult_div)
  finally show ?thesis .
qed

lemma mem_word_phase:
  assumes big: "MIN_THRESHOLD c \<le> count" and safe: "dest \<le> src \<or> src + count \<le> dest"
  shows "mem (fst (word_phase c st dest src count))
     = blit (mem st) dest src (word_phase_bytes c dest src count)"
proof -
  let ?b = "bytes_long c"
  let ?j = "align_bytes c dest"
  let ?dist = "distance_of c dest src"
  let ?st1 = "copy_remainder st dest src ?j"
  have j: "?j \<le> count"
    using big align_bytes_less [of c dest] by (simp add: min_threshold)
  have m1: "mem ?st1 = blit (mem st) dest src ?j"
    using safe j by (intro mem_copy_remainder) arith
  have le: "word_phase_bytes c dest src count \<le> count"
    using big by (rule word_phase_bytes_le)
  show ?thesis
  proof (cases "?dist = 0")
    case True
    have "mem (fst (word_phase c st dest src count))
        = blit (mem ?st1) (dest + ?j) (src + ?j) (?b * ((count - ?j) div ?b))"
      using True safe j by (simp only: word_phase_eq) (simp, intro mem_word_loop, arith)
    also have "\<dots> = blit (mem st) dest src (?j + ?b * ((count - ?j) div ?b))"
      unfolding m1 using safe le True by (intro blit_blit) (simp add: word_phase_bytes_def, arith)
    finally show ?thesis
      using True by (simp add: word_phase_bytes_def)
  next
    case False
    then have slow: "\<not> HAVE_EFFICIENT_UNALIGNED_ACCESS c"
      by (auto simp: distance_of_def)
    have dist: "?dist = (src + ?j) mod ?b"
      using slow by (simp add: distance_of_def)
    have "dest + ?j \<le> src + ?j - ?dist" if "dest \<le> src"
      unfolding dist using align_bytes_aligned [OF slow, of dest] that
      by (intro aligned_le_floor) simp_all
    then have safe1: "dest + ?j \<le> src + ?j - ?dist \<or> src + ?j + (count - ?j) \<le> dest + ?j"
      using safe j by arith
    have "mem (fst (word_phase c st dest src count))
        = blit (mem ?st1) (dest + ?j) (src + ?j) (?b * shift_words c (count - ?j))"
      using False distance_of_less [of c dest src] distance_le [of c dest src] safe1
      by (simp only: word_phase_eq) (simp, intro mem_shifted_copy, simp_all)
    also have "\<dots> = blit (mem st) dest src (?j + ?b * shift_words c (count - ?j))"
      unfolding m1 using safe le False by (intro blit_blit) (simp add: word_phase_bytes_def, arith)
    finally show ?thesis
      using False by (simp add: word_phase_bytes_def)
  qed
qed

lemma frame_word_phase:
  assumes "MIN_THRESHOLD c \<le> count" "a < dest \<or> dest + count \<le> a"
  shows "mem (fst (word_phase c st dest src count)) a = mem st a"
proof -
  let ?j = "align_bytes c dest"
  let ?st1 = "copy_remainder st dest src ?j"
  have j: "?j \<le> count"
    using assms(1) align_bytes_less [of c dest] by (simp add: min_threshold)
  have out1: "a < dest \<or> dest + ?j \<le> a"
    using assms(2) j by arith
  have out2: "a < dest + ?j \<or> dest + ?j + (count - ?j) \<le> a"
    using assms(2) j by arith
  have "mem (fst (word_phase c st dest src count)) a = mem ?st1 a"
    using out2 by (simp add: word_phase_eq frame_shifted_copy frame_word_loop)
  also have "\<dots> = mem st a"
    using out1 by (rule frame_copy_remainder)
  finally show ?thesis .
qed

lemma in_bounds_mono: "in_bounds c d s m e \<Longrightarrow> m \<le> n \<Longrightarrow> in_bounds c d s n e"
  by (cases e) auto

lemma stays_in_mono: "stays_in c d s m st st1 \<Longrightarrow> m \<le> n \<Longrightarrow> stays_in c d s n st st1"
  unfolding stays_in_def using in_bounds_mono [of c d s m]
  by (auto simp: list_all_iff)

lemma stays_in_word_phase:
  assumes "MIN_THRESHOLD c \<le> count"
  shows "stays_in c dest src count st (fst (word_phase c st dest src count))"
proof -
  let ?j = "align_bytes c dest"
  let ?dist = "distance_of c dest src"
  let ?st1 = "copy_remainder st dest src ?j"
  have j: "?j < bytes_long c"
    by (rule align_bytes_less)
  then have le: "?j \<le> count"
    using assms by (simp add: min_threshold)
  have one: "stays_in c dest src count st ?st1"
    using stays_in_copy_remainder le by (rule stays_in_mono)
  have "stays_in c (dest + ?j) (src + ?j) (count - ?j) ?st1 (fst (word_phase c st dest src count))"
  proof (cases "?dist = 0")
    case True
    then show ?thesis
      by (simp add: word_phase_eq stays_in_word_loop)
  next
    case False
    have "bytes_long c \<le> count - ?j + ?dist"
      using assms j by (simp add: min_threshold)
    then show ?thesis
      using False distance_le [of c dest src]
      by (simp add: word_phase_eq stays_in_shifted_copy)
  qed
  then have "stays_in c dest src count ?st1 (fst (word_phase c st dest src count))"
    using le by (rule stays_in_shift)
  with one show ?thesis
    by (rule stays_in_trans)
qed

section \<open>\<^verbatim>\<open>__memcpy\<close> as a whole\<close>

lemma memcpy_eq:
  "memcpy c st dest src count =
     (if count < MIN_THRESHOLD c then (copy_remainder st dest src count, dest)
      else (copy_remainder (fst (word_phase c st dest src count))
              (dest + word_phase_bytes c dest src count)
              (src + word_phase_bytes c dest src count)
              (count - word_phase_bytes c dest src count), dest))"
  using word_phase_ptrs [of c st dest src count]
  by (cases "word_phase c st dest src count") (simp add: memcpy_def)

lemma memcpy_returns: "snd (memcpy c st dest src count) = dest"
  by (simp add: memcpy_eq)

lemma mem_memcpy:
  assumes "dest \<le> src \<or> src + count \<le> dest"
  shows "mem (fst (memcpy c st dest src count)) = blit (mem st) dest src count"
proof (cases "count < MIN_THRESHOLD c")
  case True
  then show ?thesis
    using assms by (simp add: memcpy_eq mem_copy_remainder)
next
  case False
  let ?k = "word_phase_bytes c dest src count"
  let ?st2 = "fst (word_phase c st dest src count)"
  have k: "?k \<le> count"
    using False by (intro word_phase_bytes_le) simp
  have "mem (fst (memcpy c st dest src count))
      = mem (copy_remainder ?st2 (dest + ?k) (src + ?k) (count - ?k))"
    using False by (simp add: memcpy_eq)
  also have "\<dots> = blit (mem ?st2) (dest + ?k) (src + ?k) (count - ?k)"
    using assms k by (intro mem_copy_remainder) arith
  also have "mem ?st2 = blit (mem st) dest src ?k"
    using False assms by (intro mem_word_phase) simp_all
  also have "blit (blit (mem st) dest src ?k) (dest + ?k) (src + ?k) (count - ?k)
      = blit (mem st) dest src (?k + (count - ?k))"
    using assms k by (intro blit_blit) simp
  finally show ?thesis
    using k by simp
qed

lemma frame_memcpy:
  assumes "a < dest \<or> dest + count \<le> a"
  shows "mem (fst (memcpy c st dest src count)) a = mem st a"
proof (cases "count < MIN_THRESHOLD c")
  case True
  then show ?thesis
    using assms by (simp add: memcpy_eq frame_copy_remainder)
next
  case False
  let ?k = "word_phase_bytes c dest src count"
  let ?st2 = "fst (word_phase c st dest src count)"
  have k: "?k \<le> count"
    using False by (intro word_phase_bytes_le) simp
  have "mem (fst (memcpy c st dest src count)) a
      = mem (copy_remainder ?st2 (dest + ?k) (src + ?k) (count - ?k)) a"
    using False by (simp add: memcpy_eq)
  also have "\<dots> = mem ?st2 a"
    using assms k by (intro frame_copy_remainder) arith
  also have "\<dots> = mem st a"
    using False assms by (intro frame_word_phase) simp_all
  finally show ?thesis .
qed

lemma stays_in_memcpy: "stays_in c dest src count st (fst (memcpy c st dest src count))"
proof (cases "count < MIN_THRESHOLD c")
  case True
  then show ?thesis
    by (simp add: memcpy_eq stays_in_copy_remainder)
next
  case False
  let ?k = "word_phase_bytes c dest src count"
  let ?st2 = "fst (word_phase c st dest src count)"
  have k: "?k \<le> count"
    using False by (intro word_phase_bytes_le) simp
  have "stays_in c dest src count st ?st2"
    using False by (intro stays_in_word_phase) simp
  moreover have "stays_in c dest src count ?st2 (copy_remainder ?st2 (dest + ?k) (src + ?k) (count - ?k))"
    using stays_in_copy_remainder k by (rule stays_in_shift)
  ultimately show ?thesis
    using False by (simp add: memcpy_eq) (rule stays_in_trans)
qed

section \<open>\<^verbatim>\<open>__memmove\<close> as a whole\<close>

lemma mem_backward_loop:
  assumes "s \<le> d \<or> d + n \<le> s"
  shows "mem (backward_loop st (d + n) (s + n) n) = blit (mem st) d s n"
  using assms
proof (induction n arbitrary: st)
  case 0
  then show ?case by (simp add: blit_0)
next
  case (Suc n)
  let ?m = "mem st"
  let ?m1 = "?m(d + n := ?m (s + n))"
  have "mem (backward_loop st (d + Suc n) (s + Suc n) (Suc n))
      = mem (backward_loop (copy_byte st (d + n) (s + n)) (d + n) (s + n) n)"
    by simp
  also have "\<dots> = blit ?m1 d s n"
  proof -
    have pre: "s \<le> d \<or> d + n \<le> s"
      using Suc.prems by arith
    show ?thesis
      by (simp only: Suc.IH [OF pre] mem_copy_byte)
  qed
  also have "\<dots> = blit ?m d s (Suc n)"
  proof (rule ext)
    fix a
    consider (body) "d \<le> a" "a < d + n" | (last) "a = d + n" | (out) "a < d \<or> d + Suc n \<le> a"
      by arith
    then show "blit ?m1 d s n a = blit ?m d s (Suc n) a"
    proof cases
      case body
      then have "s + (a - d) \<noteq> d + n"
        using Suc.prems by arith
      then have "blit ?m1 d s n a = ?m (s + (a - d))"
        using body by (simp only: blit_in) simp
      moreover have "blit ?m d s (Suc n) a = ?m (s + (a - d))"
        using body by (intro blit_in) simp_all
      ultimately show ?thesis by simp
    next
      case last
      then have "blit ?m1 d s n a = ?m (s + n)"
        by (subst blit_out) simp_all
      moreover have "blit ?m d s (Suc n) a = ?m (s + (a - d))"
        using last by (intro blit_in) simp_all
      ultimately show ?thesis
        using last by simp
    next
      case out
      then have "blit ?m1 d s n a = ?m1 a"
        by (intro blit_out) arith
      moreover have "blit ?m d s (Suc n) a = ?m a"
        using out by (rule blit_out)
      ultimately show ?thesis
        using out by auto
    qed
  qed
  finally show ?case .
qed

lemma frame_backward_loop:
  "a < d \<or> d + n \<le> a \<Longrightarrow> mem (backward_loop st (d + n) (s + n) n) a = mem st a"
proof (induction n arbitrary: st)
  case 0
  then show ?case by simp
next
  case (Suc n)
  have "mem (backward_loop st (d + Suc n) (s + Suc n) (Suc n)) a
      = mem (backward_loop (copy_byte st (d + n) (s + n)) (d + n) (s + n) n) a"
    by simp
  also have "\<dots> = mem (copy_byte st (d + n) (s + n)) a"
    using Suc.prems by (intro Suc.IH) arith
  also have "\<dots> = mem st a"
    using Suc.prems by (auto simp: mem_copy_byte)
  finally show ?case .
qed

lemma blit_self: "blit m d d n = m"
  by (rule ext) (auto simp: blit_def)

lemma memmove_returns: "snd (memmove c st dest src count) = dest"
  by (simp add: memmove_def memcpy_returns)

lemma mem_memmove: "mem (fst (memmove c st dest src count)) = blit (mem st) dest src count"
proof -
  consider (fwd) "dest < src \<or> src + count \<le> dest" | (bwd) "src < dest" "dest < src + count"
    | (same) "dest = src" "0 < count"
    by arith
  then show ?thesis
  proof cases
    case fwd
    then have "dest \<le> src \<or> src + count \<le> dest"
      by arith
    then show ?thesis
      using fwd by (simp add: memmove_def mem_memcpy)
  next
    case bwd
    then have "mem (fst (memmove c st dest src count))
        = mem (backward_loop st (dest + count) (src + count) count)"
      by (simp add: memmove_def)
    also have "\<dots> = blit (mem st) dest src count"
      using bwd by (intro mem_backward_loop) simp
    finally show ?thesis .
  next
    case same
    then show ?thesis
      by (simp add: memmove_def blit_self)
  qed
qed

lemma stays_in_memmove: "stays_in c dest src count st (fst (memmove c st dest src count))"
  by (simp add: memmove_def stays_in_memcpy stays_in_backward_loop stays_in_refl)

lemma write_all_eq:
  "write_all m a bs = (\<lambda>x. if a \<le> x \<and> x < a + length bs then bs ! (x - a) else m x)"
proof (induction bs arbitrary: m a)
  case Nil
  then show ?case by (auto intro!: ext)
next
  case (Cons b bs)
  show ?case
  proof (rule ext)
    fix x
    consider (first) "x = a" | (rest) "Suc a \<le> x" "x < Suc a + length bs"
      | (out) "x < a \<or> a + length (b # bs) \<le> x"
      by fastforce
    then show "write_all m a (b # bs) x =
        (if a \<le> x \<and> x < a + length (b # bs) then (b # bs) ! (x - a) else m x)"
    proof cases
      case first
      then show ?thesis by (simp add: Cons.IH)
    next
      case rest
      then have "(b # bs) ! (x - a) = bs ! (x - Suc a)"
        by (simp add: nth_Cons') 
      then show ?thesis
        using rest by (simp add: Cons.IH)
    next
      case out
      then show ?thesis by (auto simp: Cons.IH)
    qed
  qed
qed

lemma write_read_all: "write_all m d (read_all m s n) = blit m d s n"
proof (rule ext)
  fix a
  show "write_all m d (read_all m s n) a = blit m d s n a"
  proof (cases "d \<le> a \<and> a < d + n")
    case True
    then have "a - d < n"
      by arith
    then have "read_all m s n ! (a - d) = m (s + (a - d))"
      by (simp add: read_all_def)
    then show ?thesis
      using True by (simp add: write_all_eq blit_in) (simp add: read_all_def)
  next
    case False
    then have "a < d \<or> d + n \<le> a"
      by arith
    then show ?thesis
      by (auto simp: write_all_eq blit_out read_all_def)
  qed
qed

lemma read_all_blit: "read_all (blit m d s n) d n = read_all m s n"
  by (simp add: read_all_def blit_in)

section \<open>The loops and the reference copies\<close>

lemma accesses_append: "trace st1 = trace st @ evs \<Longrightarrow> accesses st st1 = evs"
  by (simp add: accesses_def)

lemma foldl_upt_Suc_shift:
  "foldl f x [0..<Suc n] = foldl (\<lambda>y i. f y (Suc i)) (f x 0) [0..<n]"
proof -
  have "[0..<Suc n] = 0 # map Suc [0..<n]"
    by (simp add: upt_conv_Cons map_Suc_upt del: upt_Suc)
  then show ?thesis
    by (simp add: foldl_map del: upt_Suc)
qed

lemma copy_remainder_bytewise: "copy_remainder st d s n = bytewise_copy st d s n"
proof (induction n arbitrary: st d s)
  case 0
  then show ?case by (simp add: bytewise_copy_def)
next
  case (Suc n)
  have "copy_remainder st d s (Suc n) = bytewise_copy (copy_byte st d s) (Suc d) (Suc s) n"
    by (simp add: Suc.IH)
  also have "\<dots> = bytewise_copy st d s (Suc n)"
    unfolding bytewise_copy_def by (simp add: foldl_upt_Suc_shift del: upt_Suc)
  finally show ?case .
qed

lemma backward_loop_bytewise:
  "backward_loop st (d + n) (s + n) n = bytewise_copy_backward st d s n"
proof (induction n arbitrary: st)
  case 0
  then show ?case by (simp add: bytewise_copy_backward_def)
next
  case (Suc n)
  have "backward_loop st (d + Suc n) (s + Suc n) (Suc n)
      = bytewise_copy_backward (copy_byte st (d + n) (s + n)) d s n"
    by (simp add: Suc.IH)
  also have "\<dots> = bytewise_copy_backward st d s (Suc n)"
    by (simp add: bytewise_copy_backward_def)
  finally show ?case .
qed

lemma byte_pairs_shift:
  "concat (map (\<lambda>j. [LoadB (s + k + j), StoreB (d + k + j)]) [0..<n - k]) = byte_pairs d s [k..<n]"
proof -
  have "[k..<n] = map (\<lambda>j. k + j) [0..<n - k]"
    by (cases "k \<le> n") (simp_all add: map_add_upt add.commute)
  then show ?thesis
    by (simp add: byte_pairs_def comp_def add.assoc)
qed

section \<open>Memory after the byte loops and the plain word loop\<close>

lemma mem_copy_bytes_fold:
  "mem (foldl (\<lambda>st i. copy_byte st (d + i) (s + i)) st js) = put_bytes (mem st) d s js"
proof (induction js arbitrary: st)
  case Nil
  then show ?case by (simp add: put_bytes_def)
next
  case (Cons j js)
  have "mem (foldl (\<lambda>st i. copy_byte st (d + i) (s + i)) st (j # js))
      = put_bytes (mem (copy_byte st (d + j) (s + j))) d s js"
    by (simp add: Cons.IH)
  also have "\<dots> = put_bytes (mem st) d s (j # js)"
    by (simp add: put_bytes_def mem_copy_byte)
  finally show ?case .
qed

lemma trace_copy_bytes_fold:
  "trace (foldl (\<lambda>st i. copy_byte st (d + i) (s + i)) st js) = trace st @ byte_pairs d s js"
proof (induction js arbitrary: st)
  case Nil
  then show ?case by (simp add: byte_pairs_def)
next
  case (Cons j js)
  show ?case
    using Cons.IH [of "copy_byte st (d + j) (s + j)"]
    by (simp add: byte_pairs_def trace_copy_byte)
qed

lemma mem_copy_remainder_fold:
  "mem (copy_remainder st d s n) = put_bytes (mem st) d s [0..<n]"
  by (simp only: copy_remainder_bytewise bytewise_copy_def mem_copy_bytes_fold)

lemma put_bytes_shift:
  "put_bytes m (d + k) (s + k) [0..<n - k] = put_bytes m d s [k..<n]"
proof -
  have "[k..<n] = map (\<lambda>j. k + j) [0..<n - k]"
    by (cases "k \<le> n") (simp_all add: map_add_upt add.commute)
  then show ?thesis
    by (simp add: put_bytes_def foldl_map add.assoc)
qed

lemma put_bytes_self: "put_bytes m d d js = m"
  by (induction js) (simp_all add: put_bytes_def)

lemma put_words_Suc:
  "put_words c m d s [0..<Suc k]
     = put_words c (write_all m d (read_all m s (bytes_long c)))
         (d + bytes_long c) (s + bytes_long c) [0..<k]"
  unfolding put_words_def
  by (simp only: foldl_upt_Suc_shift) (simp add: add.assoc)

lemma mem_word_loop_fold:
  "mem (fst (word_loop c st d s count))
     = put_words c (mem st) d s [0..<count div bytes_long c]"
proof (induction count arbitrary: st d s rule: less_induct)
  case (less count)
  let ?b = "bytes_long c"
  show ?case
  proof (cases "?b \<le> count")
    case True
    then have lt: "count - ?b < count"
      using bytes_long_pos [of c] by arith
    have dv: "count div ?b = Suc ((count - ?b) div ?b)"
      using True by (simp add: le_div_geq bytes_long_pos)
    have "mem (fst (word_loop c st d s count))
        = put_words c (mem (copy_word c st d s)) (d + ?b) (s + ?b) [0..<(count - ?b) div ?b]"
      using True by (simp only: word_loop_step less.IH [OF lt])
    also have "mem (copy_word c st d s) = write_all (mem st) d (read_all (mem st) s ?b)"
      by (simp only: mem_copy_word write_read_all)
    finally show ?thesis
      by (simp only: dv put_words_Suc)
  next
    case False
    then show ?thesis
      by (simp add: word_loop_stop put_words_def)
  qed
qed

section \<open>Words written by the shifted copy\<close>

lemma le_word_bytes:
  assumes "w < 2 ^ (8 * n)" and "\<And>i. i < n \<Longrightarrow> m (a + i) = byte_of w i"
  shows "le_word m a n = w"
proof (rule bit_eqI)
  fix k
  have w: "take_bit (8 * n) w = w"
    using assms(1) by (simp add: take_bit_nat_eq_self)
  have hi: "bit w k \<Longrightarrow> k < 8 * n"
    using w by (metis bit_take_bit_iff)
  show "bit (le_word m a n) k = bit w k"
  proof (cases "k < 8 * n")
    case True
    then have i: "k div 8 < n"
      by (simp add: less_mult_imp_div_less mult.commute)
    have "k mod 8 < 8"
      by simp
    then have "bit (byte_of w (k div 8)) (k mod 8) = bit w (8 * (k div 8) + k mod 8)"
      by (simp add: byte_of_def bit_of_nat_iff bit_drop_bit_eq add.commute [of "k mod 8"]
          del: mult_div_mod_eq)
    then show ?thesis
      using True assms(2) [OF i] by (simp add: bit_le_word)
  next
    case False
    then show ?thesis
      using hi by (auto simp: bit_le_word)
  qed
qed

lemma shift_merge_less:
  assumes "lw < 2 ^ BITS_PER_LONG c"
  shows "shift_merge c lw nw dist < 2 ^ BITS_PER_LONG c"
proof -
  have lw: "take_bit (BITS_PER_LONG c) lw = lw"
    using assms by (simp add: take_bit_nat_eq_self)
  have hi: "bit lw k \<Longrightarrow> k < BITS_PER_LONG c" for k
    using lw by (metis bit_take_bit_iff)
  have "take_bit (BITS_PER_LONG c) (shift_merge c lw nw dist) = shift_merge c lw nw dist"
  proof (rule bit_eqI)
    fix k
    have "bit lw (dist * 8 + k) \<Longrightarrow> k < BITS_PER_LONG c"
      using hi [of "dist * 8 + k"] by simp
    then show "bit (take_bit (BITS_PER_LONG c) (shift_merge c lw nw dist)) k
        = bit (shift_merge c lw nw dist) k"
      by (auto simp: shift_merge_def bit_take_bit_iff bit_or_iff bit_drop_bit_eq add.commute)
  qed
  then show ?thesis
    by (metis take_bit_nat_less_exp)
qed

lemma shift_words_guard:
  assumes "j < shift_words c count"
  shows "bytes_long c + mask_long c \<le> count - bytes_long c * j"
proof -
  have "bytes_long c * Suc (Suc j) \<le> count + 1"
    using assms by (rule shift_words_ahead)
  then show ?thesis
    using bytes_long_pos [of c] by (simp add: mask_long_def)
qed

lemma stepped_back_aligned: "(s - (s AND mask_long c)) AND mask_long c = 0"
proof -
  have "(s - s mod bytes_long c) mod bytes_long c = 0"
    by (simp add: minus_mod_eq_mult_div)
  then show ?thesis
    by (simp add: and_mask_mod)
qed

lemma byte_of_merged_words:
  assumes "0 < dist" "dist < bytes_long c" "i < bytes_long c"
  shows "byte_of (shift_merge c (le_word m a (bytes_long c))
            (le_word m (a + bytes_long c) (bytes_long c)) dist) i = m (a + dist + i)"
proof -
  let ?b = "bytes_long c"
  let ?st = "\<lparr>mem = m, trace = []\<rparr>"
  let ?w = "shift_merge c (le_word m a ?b) (le_word m (a + ?b) ?b) dist"
  have nw: "le_word m a ?b < 2 ^ BITS_PER_LONG c"
    using le_word_less [of m a ?b] by (simp add: bits_per_long)
  have "mem (store_ulong c ?st 0 (shift_merge c (le_word m a ?b)
            (le_word (mem ?st) (a + ?b) ?b) dist)) = blit (mem ?st) 0 (a + dist) ?b"
    using assms(1,2) nw by (rule mem_shift_step) (simp_all add: byte_of_le_word)
  then have "mem (store_ulong c ?st 0 ?w) i = blit m 0 (a + dist) ?b i"
    by simp
  then show ?thesis
    using assms(3) by (simp add: mem_store_word_in blit_in)
qed

section \<open>Facts used to instantiate the theorems\<close>

lemma rv64_consts:
  "bytes_long rv64 = 8" "mask_long rv64 = 7" "MIN_THRESHOLD rv64 = 16"
  "\<not> HAVE_EFFICIENT_UNALIGNED_ACCESS rv64"
  "bytes_long rv64_fast = 8" "mask_long rv64_fast = 7" "MIN_THRESHOLD rv64_fast = 16"
  "HAVE_EFFICIENT_UNALIGNED_ACCESS rv64_fast"
  by (simp_all add: rv64_def rv64_fast_def bytes_long_def mask_long_def MIN_THRESHOLD_def
      BITS_PER_LONG_def)

lemma in_bounds_reads: "in_bounds c d s n e \<Longrightarrow> reads c e a \<Longrightarrow> a < s + n"
  by (cases e) auto

lemma in_bounds_writes: "in_bounds c d s n e \<Longrightarrow> writes c e a \<Longrightarrow> d \<le> a \<and> a < d + n"
  by (cases e) auto

section \<open>Zero-length calls\<close>

text \<open>
  C8. For every pair of regions, \<^verbatim>\<open>__memcpy\<close> and \<^verbatim>\<open>__memmove\<close> called with a count of 0
  leave the machine as it was (no byte of memory changes, and no access is made at all)
  and return the destination start address.
\<close>

theorem zero_count_noop:
  "memcpy c st dest src 0 = (st, dest) \<and> memmove c st dest src 0 = (st, dest)"
proof -
  have "0 < MIN_THRESHOLD c"
    by (cases "width c") (simp_all add: MIN_THRESHOLD_def BITS_PER_LONG_def)
  then have "memcpy c st dest src 0 = (st, dest)"
    by (simp add: memcpy_def)
  moreover have "dest < src \<or> src + 0 \<le> dest"
    by arith
  ultimately show ?thesis
    by (simp add: memmove_def)
qed

section \<open>The copy\<close>

text \<open>
  C1. For every count, every pair of non-overlapping regions and every alignment of the
  two start addresses (both are arbitrary here), after \<^verbatim>\<open>__memcpy(dest, src, count)\<close>
  the \<open>count\<close> bytes read from \<open>dest\<close> are exactly the bytes that were at \<open>src\<close> before
  the call; the call returns \<open>dest\<close>. This holds for both word sizes and for both
  settings of the unaligned-access option.
\<close>

theorem memcpy_copies:
  assumes "dest + count \<le> src \<or> src + count \<le> dest"
  shows "read_all (mem (fst (memcpy c st dest src count))) dest count = read_all (mem st) src count
    \<and> snd (memcpy c st dest src count) = dest"
proof -
  have "dest \<le> src \<or> src + count \<le> dest"
    using assms by arith
  then have "mem (fst (memcpy c st dest src count)) = blit (mem st) dest src count"
    by (rule mem_memcpy)
  then show ?thesis
    by (simp add: read_all_blit memcpy_returns)
qed

theorem memcpy_copies_witness:
  "((64::nat) + 19 \<le> 35 \<or> (35::nat) + 19 \<le> 64)
   \<and> read_all (mem (fst (memcpy rv64 boot 64 35 19))) 64 19 = read_all (mem boot) 35 19
   \<and> snd (memcpy rv64 boot 64 35 19) = 64"
  using memcpy_copies [of 64 19 35 rv64 boot] by simp

section \<open>The move\<close>

text \<open>
  C2. For every count and every position of the two regions relative to each other,
  overlapping or not, the memory after \<^verbatim>\<open>__memmove(dest, src, count)\<close> is the memory
  obtained by first reading all \<open>count\<close> source bytes and then writing them to
  \<open>dest\<close>; the call returns \<open>dest\<close>.
\<close>

theorem memmove_moves:
  "mem (fst (memmove c st dest src count)) = write_all (mem st) dest (read_all (mem st) src count)
   \<and> snd (memmove c st dest src count) = dest"
  by (simp add: mem_memmove write_read_all memmove_returns)

section \<open>Reads and writes stay inside the regions\<close>

text \<open>
  C9. Every byte that \<^verbatim>\<open>__memcpy\<close> reads, by a byte load or by a word load, lies
  strictly below \<open>src + count\<close>. This covers the first word load of the shifted copy
  and each look-ahead load \<^verbatim>\<open>next = s.as_ulong[1]\<close> made under the guard
  \<^verbatim>\<open>count >= bytes_long + mask\<close>: no read goes past the end of the source. (The
  statement is about the upper end only: the first word load of the shifted copy starts
  at the source pointer rounded down to a word boundary.)
\<close>

theorem memcpy_reads_below_end:
  assumes "e \<in> set (accesses st (fst (memcpy c st dest src count)))" "reads c e a"
  shows "a < src + count"
proof -
  have "stays_in c dest src count st (fst (memcpy c st dest src count))"
    by (rule stays_in_memcpy)
  then have "in_bounds c dest src count e"
    using assms(1) by (simp add: stays_in_def list_all_iff)
  then show ?thesis
    using assms(2) by (rule in_bounds_reads)
qed

theorem memcpy_reads_below_end_witness:
  "LoadW 40 \<in> set (accesses boot (fst (memcpy rv64 boot 64 35 19)))
   \<and> reads rv64 (LoadW 40) 47 \<and> (47::nat) < 35 + 19"
proof -
  have a: "align_bytes rv64 64 = 0" and d: "distance_of rv64 64 35 = 3"
    by (simp_all add: distance_of_def align_bytes_def rv64_consts)
  have w: "shift_words rv64 19 = 1"
    by (simp add: shift_words_def rv64_consts)
  have "trace (fst (word_phase rv64 boot 64 35 19)) = [LoadW 32, LoadW 40, StoreW 64]"
    by (simp add: word_phase_eq a d trace_shifted_copy w rv64_consts boot_def)
  moreover have "stays_in rv64 64 35 19 boot (fst (memcpy rv64 boot 64 35 19))"
    by (rule stays_in_memcpy)
  ultimately have 1: "LoadW 40 \<in> set (accesses boot (fst (memcpy rv64 boot 64 35 19)))"
    by (simp add: memcpy_eq rv64_consts accesses_def boot_def trace_copy_remainder del: upt_Suc)
  have 2: "reads rv64 (LoadW 40) 47"
    by (simp add: rv64_consts)
  show ?thesis
    using 1 2 memcpy_reads_below_end [OF 1 2] by simp
qed

text \<open>
  C10. \<^verbatim>\<open>__memcpy\<close> and \<^verbatim>\<open>__memmove\<close> write only inside
  \<open>dest[0..count)\<close>: a byte outside that range holds its original value afterwards,
  and no store of the call, byte or word, touches it. No assumption is made on how the
  regions lie.
\<close>

theorem writes_only_destination:
  assumes "a < dest \<or> dest + count \<le> a"
  shows "mem (fst (memcpy c st dest src count)) a = mem st a
    \<and> mem (fst (memmove c st dest src count)) a = mem st a
    \<and> list_all (\<lambda>e. \<not> writes c e a) (accesses st (fst (memcpy c st dest src count)))
    \<and> list_all (\<lambda>e. \<not> writes c e a) (accesses st (fst (memmove c st dest src count)))"
proof -
  have outside: "\<not> writes c e a" if "in_bounds c dest src count e" for e
    using in_bounds_writes [OF that, of a] assms by auto
  have "mem (fst (memmove c st dest src count)) a = mem st a"
    using assms by (simp add: mem_memmove blit_out)
  moreover have "list_all (\<lambda>e. \<not> writes c e a) (accesses st (fst (memcpy c st dest src count)))"
    using stays_in_memcpy [of c dest src count st] outside
    by (simp add: stays_in_def list_all_iff)
  moreover have "list_all (\<lambda>e. \<not> writes c e a) (accesses st (fst (memmove c st dest src count)))"
    using stays_in_memmove [of c dest src count st] outside
    by (simp add: stays_in_def list_all_iff)
  ultimately show ?thesis
    using assms by (simp add: frame_memcpy)
qed

theorem writes_only_destination_witness:
  "((100::nat) < 64 \<or> (64::nat) + 19 \<le> 100)
   \<and> mem (fst (memcpy rv64 boot 64 35 19)) 100 = mem boot 100
   \<and> mem (fst (memmove rv64 boot 64 35 19)) 100 = mem boot 100
   \<and> list_all (\<lambda>e. \<not> writes rv64 e 100) (accesses boot (fst (memcpy rv64 boot 64 35 19)))
   \<and> list_all (\<lambda>e. \<not> writes rv64 e 100) (accesses boot (fst (memmove rv64 boot 64 35 19)))"
  using writes_only_destination [of 100 64 19 rv64 boot 35] by simp

section \<open>The shifted word copy\<close>

text \<open>
  C4. The branch of \<^verbatim>\<open>__memcpy\<close> taken when \<open>distance\<close> is not zero, entered as the
  code enters it: the destination pointer is word-aligned, \<open>distance\<close> is the low bits of
  the source pointer, and an ascending copy is safe (the destination starts at or below
  the source, or the source ends at or below the destination). Then
  \<^item> the source pointer stepped back by \<open>distance\<close> is word-aligned;
  \<^item> the accesses are one word load at that address and then, per iteration, the
    look-ahead load of the next source word and one word store at the destination;
  \<^item> afterwards both pointers have advanced by \<open>bytes_long\<close> per iteration (the source
    pointer has \<open>distance\<close> added back) and the count has dropped by the same amount;
  \<^item> the loop stops with a count below \<open>bytes_long + mask\<close>, and ran each iteration with
    a count of at least that;
  \<^item> every word written is \<^verbatim>\<open>last >> (distance * 8) | next << ((bytes_long - distance) * 8)\<close>
    of the two adjacent aligned source words;
  \<^item> with the little-endian encoding of words, the bytes written are exactly the source
    bytes.
\<close>

theorem shifted_copy_correct:
  assumes "d AND mask_long c = 0" "distance = s AND mask_long c" "distance \<noteq> 0"
    and "d \<le> s \<or> s + count \<le> d"
  shows "(s - distance) AND mask_long c = 0
    \<and> accesses st (fst (shifted_copy c st d s count distance))
        = LoadW (s - distance) #
          concat (map (\<lambda>j. [LoadW (s - distance + bytes_long c * Suc j),
                            StoreW (d + bytes_long c * j)]) [0..<shift_words c count])
    \<and> snd (shifted_copy c st d s count distance)
        = (d + bytes_long c * shift_words c count, s + bytes_long c * shift_words c count,
           count - bytes_long c * shift_words c count)
    \<and> count - bytes_long c * shift_words c count < bytes_long c + mask_long c
    \<and> (\<forall>j < shift_words c count. bytes_long c + mask_long c \<le> count - bytes_long c * j)
    \<and> (\<forall>j < shift_words c count.
          le_word (mem (fst (shifted_copy c st d s count distance))) (d + bytes_long c * j)
            (bytes_long c)
          = shift_merge c (le_word (mem st) (s - distance + bytes_long c * j) (bytes_long c))
              (le_word (mem st) (s - distance + bytes_long c * Suc j) (bytes_long c)) distance)
    \<and> read_all (mem (fst (shifted_copy c st d s count distance))) d
          (bytes_long c * shift_words c count)
        = read_all (mem st) s (bytes_long c * shift_words c count)"
proof -
  let ?b = "bytes_long c"
  let ?k = "shift_words c count"
  let ?sa = "s - distance"
  let ?st2 = "fst (shifted_copy c st d s count distance)"
  have dist: "distance = s mod ?b"
    using assms(2) by (simp add: and_mask_mod)
  have pos: "0 < distance" and less: "distance < ?b" and le: "distance \<le> s"
    using assms(3) bytes_long_pos [of c] by (simp_all add: dist)
  have dal: "d mod ?b = 0"
    using assms(1) by (simp add: and_mask_mod)
  have "d \<le> s - distance" if "d \<le> s"
    unfolding dist using dal that by (rule aligned_le_floor)
  then have safe: "d \<le> s - distance \<or> s + count \<le> d"
    using assms(4) by auto
  have m2: "mem ?st2 = blit (mem st) d s (?b * ?k)"
    using pos less le safe by (rule mem_shifted_copy)
  have 1: "(s - distance) AND mask_long c = 0"
    unfolding assms(2) by (rule stepped_back_aligned)
  have 2: "accesses st ?st2 = LoadW ?sa #
      concat (map (\<lambda>j. [LoadW (?sa + ?b * Suc j), StoreW (d + ?b * j)]) [0..<?k])"
    by (rule accesses_append) (rule trace_shifted_copy)
  have 3: "snd (shifted_copy c st d s count distance)
      = (d + ?b * ?k, s + ?b * ?k, count - ?b * ?k)"
    using le by (rule shifted_copy_ptrs)
  have 4: "count - ?b * ?k < ?b + mask_long c"
    by (rule shift_words_left)
  have 5: "\<forall>j < ?k. ?b + mask_long c \<le> count - ?b * j"
    using shift_words_guard by blast
  have 6: "le_word (mem ?st2) (d + ?b * j) ?b
      = shift_merge c (le_word (mem st) (?sa + ?b * j) ?b)
          (le_word (mem st) (?sa + ?b * Suc j) ?b) distance" if j: "j < ?k" for j
  proof (rule le_word_bytes)
    show "shift_merge c (le_word (mem st) (?sa + ?b * j) ?b)
        (le_word (mem st) (?sa + ?b * Suc j) ?b) distance < 2 ^ (8 * ?b)"
      using shift_merge_less [of "le_word (mem st) (?sa + ?b * j) ?b" c] le_word_less [of "mem st" _ ?b]
      by (simp add: bits_per_long)
  next
    fix i
    assume i: "i < ?b"
    have "?b * Suc j \<le> ?b * ?k"
      using j by (intro mult_le_mono2) simp
    then have inside: "d + ?b * j + i < d + ?b * ?k"
      using i by simp
    have "mem ?st2 (d + ?b * j + i) = mem st (s + (d + ?b * j + i - d))"
      unfolding m2 using inside by (intro blit_in) simp_all
    also have "s + (d + ?b * j + i - d) = ?sa + ?b * j + distance + i"
      using le by arith
    also have "mem st (?sa + ?b * j + distance + i)
        = byte_of (shift_merge c (le_word (mem st) (?sa + ?b * j) ?b)
            (le_word (mem st) (?sa + ?b * j + ?b) ?b) distance) i"
      using pos less i by (rule byte_of_merged_words [symmetric])
    also have "?sa + ?b * j + ?b = ?sa + ?b * Suc j"
      by simp
    finally show "mem ?st2 (d + ?b * j + i)
        = byte_of (shift_merge c (le_word (mem st) (?sa + ?b * j) ?b)
            (le_word (mem st) (?sa + ?b * Suc j) ?b) distance) i" .
  qed
  have 7: "read_all (mem ?st2) d (?b * ?k) = read_all (mem st) s (?b * ?k)"
    unfolding m2 by (rule read_all_blit)
  show ?thesis
    using 1 2 3 4 5 6 7 by blast
qed

theorem shifted_copy_correct_witness:
  "(64::nat) AND mask_long rv64 = 0 \<and> (3::nat) = 35 AND mask_long rv64 \<and> (3::nat) \<noteq> 0
   \<and> ((64::nat) \<le> 35 \<or> (35::nat) + 19 \<le> 64)
   \<and> snd (shifted_copy rv64 boot 64 35 19 3) = (72, 43, 11)
   \<and> read_all (mem (fst (shifted_copy rv64 boot 64 35 19 3))) 64 8 = read_all (mem boot) 35 8"
proof -
  have m: "mask_long rv64 = 7" and b: "bytes_long rv64 = 8"
    by (simp_all add: rv64_consts)
  have h1: "(64::nat) AND mask_long rv64 = 0" and h2: "(3::nat) = 35 AND mask_long rv64"
    by (simp_all add: and_mask_mod b)
  have h3: "(3::nat) \<noteq> 0" and h4: "(64::nat) \<le> 35 \<or> (35::nat) + 19 \<le> 64"
    by simp_all
  have w: "shift_words rv64 19 = 1"
    by (simp add: shift_words_def b)
  show ?thesis
    using h1 h2 shifted_copy_correct [OF h1 h2 h3 h4, of boot] by (simp add: w b)
qed

section \<open>The count left for the remainder loop\<close>

text \<open>
  C5, as stated: whenever \<^verbatim>\<open>__memcpy\<close> takes the word-wise phase (count at or above the
  threshold), fewer than \<open>bytes_long\<close> bytes are left when the remainder loop starts.
  This fails after the shifted copy. On a 64-bit machine without efficient unaligned
  access, with \<open>dest = 64\<close>, \<open>src = 35\<close> and \<open>count = 16\<close>, the destination is aligned,
  \<open>distance\<close> is 3, the shifted loop runs once (16 >= 15) and stops at 8 (8 < 15): the
  remainder loop starts with 8 bytes, a full word.
\<close>

theorem remainder_below_word_counterexample:
  "MIN_THRESHOLD rv64 \<le> 16 \<and> \<not> remaining (word_phase rv64 boot 64 35 16) < bytes_long rv64"
proof -
  have "align_bytes rv64 64 = 0" and "distance_of rv64 64 35 = 3"
    by (simp_all add: distance_of_def align_bytes_def rv64_consts)
  moreover have "shift_words rv64 16 = 1"
    by (simp add: shift_words_def rv64_consts)
  ultimately have "word_phase_bytes rv64 64 35 16 = 8"
    by (simp add: word_phase_bytes_def rv64_consts)
  then have "remaining (word_phase rv64 boot 64 35 16) = 8"
    using word_phase_ptrs [of rv64 boot 64 35 16] by (simp add: remaining_def)
  then show ?thesis
    by (simp add: rv64_consts)
qed

text \<open>
  C5, amended: when the word-wise phase was taken, the count left for the remainder loop
  is below \<open>bytes_long\<close> if \<open>distance\<close> was 0 (plain word copy), and below
  \<open>bytes_long + mask\<close>, that is \<open>2 * bytes_long - 1\<close>, if the shifted copy ran. The guard
  of the shifted loop stops one word early so that its look-ahead load stays inside the
  source.
\<close>

theorem remainder_bound:
  assumes "MIN_THRESHOLD c \<le> count"
  shows "remaining (word_phase c st dest src count)
     < (if distance_after (align_phase c st dest src count) = 0 then bytes_long c
        else bytes_long c + mask_long c)"
proof -
  let ?j = "align_bytes c dest"
  have rem: "remaining (word_phase c st dest src count) = count - word_phase_bytes c dest src count"
    using word_phase_ptrs [of c st dest src count] by (simp add: remaining_def)
  have dist: "distance_after (align_phase c st dest src count) = distance_of c dest src"
    by (simp add: align_phase_eq distance_after_def)
  show ?thesis
  proof (cases "distance_of c dest src = 0")
    case True
    have "count - ?j - bytes_long c * ((count - ?j) div bytes_long c) = (count - ?j) mod bytes_long c"
      by (simp add: minus_mult_div_eq_mod)
    also have "\<dots> < bytes_long c"
      using bytes_long_pos [of c] by simp
    finally show ?thesis
      using True by (simp add: rem dist word_phase_bytes_def)
  next
    case False
    have "count - ?j - bytes_long c * shift_words c (count - ?j) < bytes_long c + mask_long c"
      by (rule shift_words_left)
    then show ?thesis
      using False by (simp add: rem dist word_phase_bytes_def)
  qed
qed

theorem remainder_bound_witness:
  "MIN_THRESHOLD rv64 \<le> 16
   \<and> remaining (word_phase rv64 boot 64 35 16)
     < (if distance_after (align_phase rv64 boot 64 35 16) = 0 then bytes_long rv64
        else bytes_long rv64 + mask_long rv64)"
proof -
  have h: "MIN_THRESHOLD rv64 \<le> 16"
    by (simp add: rv64_consts)
  show ?thesis
    using h remainder_bound [OF h, of boot 64 35] by blast
qed

section \<open>Small copies\<close>

text \<open>
  C6. For every count below two machine words, \<^verbatim>\<open>__memcpy\<close> is a pure ascending
  byte-by-byte copy of \<open>count\<close> bytes. Its memory afterwards is the memory obtained by
  putting, for \<open>i = 0, 1, ..., count - 1\<close> in this order, the byte then at \<open>src + i\<close> at
  \<open>dest + i\<close>; it returns \<open>dest\<close>. It makes no alignment fixup and no word access: its
  accesses are one byte load and one byte store per index, in ascending order. As a
  machine it equals the reference \<open>bytewise_copy\<close>.
\<close>

theorem small_copy_bytewise:
  assumes "count < 2 * bytes_long c"
  shows "memcpy c st dest src count = (bytewise_copy st dest src count, dest)
    \<and> accesses st (fst (memcpy c st dest src count)) = byte_pairs dest src [0..<count]
    \<and> mem (fst (memcpy c st dest src count)) = put_bytes (mem st) dest src [0..<count]
    \<and> snd (memcpy c st dest src count) = dest"
proof -
  have eq: "memcpy c st dest src count = (copy_remainder st dest src count, dest)"
    using assms by (simp add: memcpy_eq min_threshold)
  have "mem (fst (memcpy c st dest src count)) = put_bytes (mem st) dest src [0..<count]"
    by (simp add: eq mem_copy_remainder_fold)
  moreover have "accesses st (fst (memcpy c st dest src count)) = byte_pairs dest src [0..<count]"
    using trace_copy_remainder [of st dest src count, THEN accesses_append]
    by (simp add: eq byte_pairs_def)
  moreover have "memcpy c st dest src count = (bytewise_copy st dest src count, dest)"
    by (simp add: eq copy_remainder_bytewise)
  ultimately show ?thesis
    by (simp add: memcpy_returns)
qed

theorem small_copy_bytewise_witness:
  "3 < 2 * bytes_long rv64
   \<and> memcpy rv64 boot 64 35 3 = (bytewise_copy boot 64 35 3, 64)
   \<and> accesses boot (fst (memcpy rv64 boot 64 35 3))
       = [LoadB 35, StoreB 64, LoadB 36, StoreB 65, LoadB 37, StoreB 66]
   \<and> mem (fst (memcpy rv64 boot 64 35 3))
       = (mem boot)(64 := mem boot 35, 65 := mem boot 36, 66 := mem boot 37)"
proof -
  have h: "3 < 2 * bytes_long rv64"
    by (simp add: rv64_consts)
  note t = small_copy_bytewise [OF h, of boot 64 35]
  have u: "[0..<3] = [0, 1, 2]"
    by (simp add: upt_conv_Cons)
  have pairs: "byte_pairs 64 35 [0..<3]
      = [LoadB 35, StoreB 64, LoadB 36, StoreB 65, LoadB 37, StoreB 66]"
    by (simp add: u byte_pairs_def)
  have bytes: "put_bytes (mem boot) 64 35 [0..<3]
      = (mem boot)(64 := mem boot 35, 65 := mem boot 36, 66 := mem boot 37)"
    by (simp add: u put_bytes_def)
  have 1: "memcpy rv64 boot 64 35 3 = (bytewise_copy boot 64 35 3, 64)"
    using t by blast
  have 2: "accesses boot (fst (memcpy rv64 boot 64 35 3))
      = [LoadB 35, StoreB 64, LoadB 36, StoreB 65, LoadB 37, StoreB 66]"
    using t pairs by metis
  have 3: "mem (fst (memcpy rv64 boot 64 35 3))
      = (mem boot)(64 := mem boot 35, 65 := mem boot 36, 66 := mem boot 37)"
    using t bytes by metis
  show ?thesis
    using h 1 2 3 by blast
qed

section \<open>Efficient unaligned access\<close>

text \<open>
  C7. When \<^verbatim>\<open>CONFIG_HAVE_EFFICIENT_UNALIGNED_ACCESS\<close> is set, the alignment fixup
  does nothing and leaves \<open>distance\<close> at 0 for every input, so the word-wise phase is
  the plain word loop, never the shifted copy. It makes one word load and one word store
  per full word, \<open>count div bytes_long\<close> of them, at the unaligned addresses as they
  are, and leaves \<open>count mod bytes_long\<close> bytes. Its memory afterwards is the memory
  obtained by copying these words one after the other in ascending order, each word
  read in full and then written; when an ascending copy is safe for the two regions,
  that is the memory with the first \<open>bytes_long * (count div bytes_long)\<close> source bytes
  at the destination. For \<^verbatim>\<open>__memcpy\<close> as a whole the accesses and the memory are
  those of the word copies followed by the byte copies of the remainder; below the
  threshold of two words the word-wise phase is not entered and the call is the
  byte-by-byte copy.
\<close>

theorem unaligned_ok_direct_words:
  assumes "HAVE_EFFICIENT_UNALIGNED_ACCESS c"
  shows "align_phase c st dest src count = (st, dest, src, count, 0)
    \<and> word_phase c st dest src count = word_loop c st dest src count
    \<and> accesses st (fst (word_phase c st dest src count))
        = word_pairs c dest src [0..<count div bytes_long c]
    \<and> remaining (word_phase c st dest src count) = count mod bytes_long c
    \<and> accesses st (fst (memcpy c st dest src count))
        = (if count < MIN_THRESHOLD c then byte_pairs dest src [0..<count]
           else word_pairs c dest src [0..<count div bytes_long c]
                @ byte_pairs dest src [bytes_long c * (count div bytes_long c)..<count])
    \<and> mem (fst (word_phase c st dest src count))
        = put_words c (mem st) dest src [0..<count div bytes_long c]
    \<and> mem (fst (memcpy c st dest src count))
        = (if count < MIN_THRESHOLD c then put_bytes (mem st) dest src [0..<count]
           else put_bytes (put_words c (mem st) dest src [0..<count div bytes_long c])
                  dest src [bytes_long c * (count div bytes_long c)..<count])
    \<and> (dest \<le> src \<or> src + count \<le> dest \<longrightarrow>
          mem (fst (word_phase c st dest src count))
            = write_all (mem st) dest
                (read_all (mem st) src (bytes_long c * (count div bytes_long c))))"
proof -
  let ?b = "bytes_long c"
  let ?k = "?b * (count div ?b)"
  have ap: "align_phase c st dest src count = (st, dest, src, count, 0)"
    using assms by (simp add: align_phase_def)
  then have wp: "word_phase c st dest src count = word_loop c st dest src count"
    by (simp add: word_phase_def)
  have tr: "trace (fst (word_loop c st dest src count))
      = trace st @ word_pairs c dest src [0..<count div ?b]"
    by (simp add: trace_word_loop word_pairs_def)
  have ptrs: "snd (word_loop c st dest src count)
      = (dest + ?k, src + ?k, count mod ?b)"
    by (rule word_loop_ptrs)
  have rest: "count - ?k = count mod ?b"
    by (simp add: minus_mult_div_eq_mod)
  have mw: "mem (fst (word_loop c st dest src count))
      = put_words c (mem st) dest src [0..<count div ?b]"
    by (rule mem_word_loop_fold)
  have whole: "fst (memcpy c st dest src count)
      = copy_remainder (fst (word_loop c st dest src count)) (dest + ?k) (src + ?k) (count - ?k)"
    if "\<not> count < MIN_THRESHOLD c"
    using that ptrs by (cases "word_loop c st dest src count") (simp add: memcpy_def wp rest)
  have acc: "accesses st (fst (memcpy c st dest src count))
        = (if count < MIN_THRESHOLD c then byte_pairs dest src [0..<count]
           else word_pairs c dest src [0..<count div ?b] @ byte_pairs dest src [?k..<count])"
  proof (cases "count < MIN_THRESHOLD c")
    case True
    then show ?thesis
      using trace_copy_remainder [of st dest src count, THEN accesses_append]
      by (simp add: memcpy_eq byte_pairs_def)
  next
    case False
    have "trace (fst (memcpy c st dest src count))
        = trace st @ (word_pairs c dest src [0..<count div ?b] @ byte_pairs dest src [?k..<count])"
      by (simp add: whole [OF False] trace_copy_remainder tr byte_pairs_shift)
    then show ?thesis
      using False by (simp add: accesses_append)
  qed
  have memw: "mem (fst (memcpy c st dest src count))
        = (if count < MIN_THRESHOLD c then put_bytes (mem st) dest src [0..<count]
           else put_bytes (put_words c (mem st) dest src [0..<count div ?b]) dest src [?k..<count])"
  proof (cases "count < MIN_THRESHOLD c")
    case True
    then show ?thesis
      by (simp add: memcpy_eq mem_copy_remainder_fold)
  next
    case False
    then show ?thesis
      by (simp add: whole [OF False] mem_copy_remainder_fold mw put_bytes_shift)
  qed
  have safe: "mem (fst (word_phase c st dest src count))
      = write_all (mem st) dest (read_all (mem st) src ?k)"
    if "dest \<le> src \<or> src + count \<le> dest"
    using mem_word_loop [OF that, of c st] by (simp add: wp write_read_all)
  show ?thesis
    using ap wp tr [THEN accesses_append] ptrs acc memw mw safe by (simp add: remaining_def)
qed

theorem unaligned_ok_direct_words_witness:
  "HAVE_EFFICIENT_UNALIGNED_ACCESS rv64_fast
   \<and> align_phase rv64_fast boot 65 35 19 = (boot, 65, 35, 19, 0)
   \<and> accesses boot (fst (memcpy rv64_fast boot 65 35 19))
       = [LoadW 35, StoreW 65, LoadW 43, StoreW 73, LoadB 51, StoreB 81, LoadB 52, StoreB 82,
          LoadB 53, StoreB 83]
   \<and> ((65::nat) \<le> 35 \<or> (35::nat) + 19 \<le> 65)
   \<and> mem (fst (word_phase rv64_fast boot 65 35 19))
       = write_all (mem boot) 65 (read_all (mem boot) 35 16)"
proof -
  have h: "HAVE_EFFICIENT_UNALIGNED_ACCESS rv64_fast"
    by (simp add: rv64_consts)
  note t = unaligned_ok_direct_words [OF h, of boot 65 35 19]
  have u: "[0..<2] = [0, 1]" "[16..<19] = [16, 17, 18]"
    by (simp_all add: upt_conv_Cons)
  have big: "\<not> 19 < MIN_THRESHOLD rv64_fast"
    by (simp add: rv64_consts)
  have pairs: "word_pairs rv64_fast 65 35 [0..<19 div bytes_long rv64_fast]
        @ byte_pairs 65 35 [bytes_long rv64_fast * (19 div bytes_long rv64_fast)..<19]
      = [LoadW 35, StoreW 65, LoadW 43, StoreW 73, LoadB 51, StoreB 81, LoadB 52, StoreB 82,
          LoadB 53, StoreB 83]"
    by (simp add: rv64_consts u word_pairs_def byte_pairs_def)
  have place: "(65::nat) \<le> 35 \<or> (35::nat) + 19 \<le> 65"
    by simp
  have k: "bytes_long rv64_fast * (19 div bytes_long rv64_fast) = 16"
    by (simp add: rv64_consts)
  have 1: "align_phase rv64_fast boot 65 35 19 = (boot, 65, 35, 19, 0)"
    using t by blast
  have "accesses boot (fst (memcpy rv64_fast boot 65 35 19))
      = word_pairs rv64_fast 65 35 [0..<19 div bytes_long rv64_fast]
        @ byte_pairs 65 35 [bytes_long rv64_fast * (19 div bytes_long rv64_fast)..<19]"
    using t big by (simp only: if_False)
  then have 2: "accesses boot (fst (memcpy rv64_fast boot 65 35 19))
       = [LoadW 35, StoreW 65, LoadW 43, StoreW 73, LoadB 51, StoreB 81, LoadB 52, StoreB 82,
          LoadB 53, StoreB 83]"
    by (simp only: pairs)
  have "mem (fst (word_phase rv64_fast boot 65 35 19))
      = write_all (mem boot) 65
          (read_all (mem boot) 35 (bytes_long rv64_fast * (19 div bytes_long rv64_fast)))"
    using t place by blast
  then have 3: "mem (fst (word_phase rv64_fast boot 65 35 19))
       = write_all (mem boot) 65 (read_all (mem boot) 35 16)"
    by (simp only: k)
  show ?thesis
    using h 1 2 place 3 by blast
qed

section \<open>The move against its specification\<close>

text \<open>
  C3. \<^verbatim>\<open>__memmove\<close> is \<^verbatim>\<open>memcpy\<close> on the same arguments, final machine and
  returned address, whenever \<open>dest < src\<close> or \<open>src + count \<le> dest\<close>. In the other cases
  it returns \<open>dest\<close>, and when \<open>dest > src\<close> (then the regions overlap) its accesses are
  one byte load at \<open>src + i\<close> and one byte store at \<open>dest + i\<close> for
  \<open>i = count - 1, ..., 1, 0\<close> in this order, from the last byte of each region backward
  to the first, and its memory afterwards is the memory obtained by putting the bytes in
  that order. In every case the memory afterwards is the one obtained by reading the
  whole source and then writing it to the destination. Against \<open>move_spec\<close>, which
  delegates to \<^verbatim>\<open>memcpy\<close> under the same test and otherwise copies byte by byte
  backward, the two return the same address and leave the same memory for every input,
  and are equal as machines in both cases above. In the one remaining case,
  \<open>dest = src\<close> with a positive count, the code skips the loop and makes no access,
  where the backward copy would store each byte onto itself: memory is the same.
\<close>

theorem memmove_refines_spec:
  "memmove c st dest src count
     = (if dest = src \<and> 0 < count then (st, dest) else move_spec c st dest src count)
   \<and> mem (fst (memmove c st dest src count)) = mem (fst (move_spec c st dest src count))
   \<and> snd (memmove c st dest src count) = snd (move_spec c st dest src count)
   \<and> memmove c st dest src count
       = (if dest < src \<or> src + count \<le> dest then memcpy c st dest src count
          else (fst (memmove c st dest src count), dest))
   \<and> accesses st (fst (memmove c st dest src count))
       = (if dest < src \<or> src + count \<le> dest
          then accesses st (fst (memcpy c st dest src count))
          else if src < dest then byte_pairs dest src (rev [0..<count]) else [])
   \<and> mem (fst (memmove c st dest src count))
       = (if dest < src \<or> src + count \<le> dest then mem (fst (memcpy c st dest src count))
          else put_bytes (mem st) dest src (rev [0..<count]))
   \<and> mem (fst (memmove c st dest src count))
       = write_all (mem st) dest (read_all (mem st) src count)"
proof -
  have bwd: "backward_loop st (dest + count) (src + count) count
      = foldl (\<lambda>st i. copy_byte st (dest + i) (src + i)) st (rev [0..<count])"
    by (simp add: backward_loop_bytewise bytewise_copy_backward_def)
  have one: "memmove c st dest src count
     = (if dest = src \<and> 0 < count then (st, dest) else move_spec c st dest src count)"
    unfolding memmove_def move_spec_def bytewise_copy_backward_def bwd by auto
  have "mem (bytewise_copy_backward st src src count) = mem st"
    using mem_backward_loop [of src src count st]
    by (simp add: backward_loop_bytewise blit_self)
  then have same: "mem (fst (move_spec c st dest src count)) = mem st" if "dest = src" "0 < count"
    using that by (simp add: move_spec_def)
  have acc: "accesses st (fst (memmove c st dest src count))
       = (if dest < src \<or> src + count \<le> dest
          then accesses st (fst (memcpy c st dest src count))
          else if src < dest then byte_pairs dest src (rev [0..<count]) else [])"
    by (simp add: memmove_def bwd accesses_append [OF trace_copy_bytes_fold])
       (simp add: accesses_def)
  have m: "mem (fst (memmove c st dest src count))
       = (if dest < src \<or> src + count \<le> dest then mem (fst (memcpy c st dest src count))
          else put_bytes (mem st) dest src (rev [0..<count]))"
    by (auto simp: memmove_def bwd mem_copy_bytes_fold put_bytes_self)
  have ret: "memmove c st dest src count
       = (if dest < src \<or> src + count \<le> dest then memcpy c st dest src count
          else (fst (memmove c st dest src count), dest))"
    by (simp add: memmove_def)
  have all: "mem (fst (memmove c st dest src count))
       = write_all (mem st) dest (read_all (mem st) src count)"
    by (simp add: mem_memmove write_read_all)
  have first3: "mem (fst (memmove c st dest src count)) = mem (fst (move_spec c st dest src count))
     \<and> snd (memmove c st dest src count) = snd (move_spec c st dest src count)"
    using one same by (simp add: memcpy_returns move_spec_def)
  show ?thesis
    using one first3 acc m ret all by blast
qed

end
